theory Spec2Isabelle
  imports Complex_Main
begin

section \<open>Beam deflection solvers of ridwan.py\<close>

text \<open>
  The script computes the deflection of a beam under a point load twice: by marching a
  fourth-order Runge-Kutta scheme over the span, and by solving one linear system built
  from the central-difference stencil of the fourth derivative.

  numpy's float64 arithmetic is modelled by arithmetic on the real numbers: rounding is
  abstracted away, and so are overflow and underflow in the definitions of
  \<open>gaussian_load\<close>, \<open>beam_deflection_rk4\<close>, \<open>cd_system\<close> and
  \<open>beam_deflection_central_difference\<close>, which give the exact-arithmetic result of the
  code. Where the range of a double decides what the code does, the definitions with the
  suffix \<open>_py\<close> add the outcome of leaving it. The module constants \<open>L\<close>, \<open>EI\<close>,
  \<open>P\<close>, \<open>a\<close>, \<open>spread\<close>, \<open>dx\<close> and \<open>N\<close> are the fields of a record
  that every function takes, so that a statement can range over them.
\<close>

subsection \<open>Parameters and errors\<close>

datatype error = ValueError | IndexError | ZeroDivisionError | LinAlgError | OverflowError

record params =
  p_L :: real
  p_EI :: real
  p_P :: real
  p_a :: real
  p_spread :: real
  p_dx :: real
  p_N :: nat

text \<open>The constants as the script sets them (lines 7 to 13).\<close>

definition ridwan_params :: params where
  "ridwan_params =
     \<lparr> p_L = 10, p_EI = 2 * 10 ^ 11 * (8333 / 10 ^ 9), p_P = 1000, p_a = 5,
       p_spread = 5 / 100, p_dx = 1 / 10, p_N = 101 \<rparr>"

definition bind :: "error + 'a \<Rightarrow> ('a \<Rightarrow> error + 'b) \<Rightarrow> error + 'b" where
  "bind m k = (case m of Inl e \<Rightarrow> Inl e | Inr v \<Rightarrow> k v)"

subsection \<open>The load function\<close>

text \<open>
  \<^verbatim>\<open>return P * np.exp(-((x - a)**2) / (2 * spread**2)) / (spread * np.sqrt(2 * np.pi))\<close>
  over the reals. The first argument is the global \<open>P\<close>. It is the value the code
  computes, up to rounding, where \<open>spread ** 2\<close> neither overflows nor underflows to
  zero; what the code does at \<open>spread = 0\<close> and outside the range of a double is the
  subject of \<open>gaussian_load_py\<close> below.
\<close>

definition gaussian_load :: "real \<Rightarrow> real \<Rightarrow> real \<Rightarrow> real \<Rightarrow> real" where
  "gaussian_load Pl x al sp =
     Pl * exp (- ((x - al)\<^sup>2) / (2 * sp\<^sup>2)) / (sp * sqrt (2 * pi))"

subsection \<open>One-dimensional arrays\<close>

type_synonym ndarray = "real list"

text \<open>\<open>s * v\<close> and \<open>v / s\<close> for a scalar \<open>s\<close> and an array \<open>v\<close>.\<close>

definition np_smul :: "real \<Rightarrow> ndarray \<Rightarrow> ndarray" where
  "np_smul s v = map (\<lambda>c. s * c) v"

definition np_sdiv :: "ndarray \<Rightarrow> real \<Rightarrow> ndarray" where
  "np_sdiv v s = map (\<lambda>c. c / s) v"

text \<open>
  \<open>u + v\<close> for two arrays: elementwise on equal shapes, an array of one element is
  broadcast, and any other pair of shapes raises ValueError.
\<close>

definition np_add :: "ndarray \<Rightarrow> ndarray \<Rightarrow> error + ndarray" where
  "np_add u v =
     (if length u = length v then Inr (map2 (+) u v)
      else if length u = 1 then Inr (map (\<lambda>c. hd u + c) v)
      else if length v = 1 then Inr (map (\<lambda>c. c + hd v) u)
      else Inl ValueError)"

subsection \<open>The Runge-Kutta solver\<close>

text \<open>
  \<^verbatim>\<open>y1, y2, y3, y4 = Y\<close> raises ValueError unless \<open>Y\<close> has four elements.
\<close>

fun system_of_odes :: "params \<Rightarrow> real \<Rightarrow> ndarray \<Rightarrow> error + ndarray" where
  "system_of_odes p x [y1, y2, y3, y4] =
     Inr [y2, y3, y4, gaussian_load (p_P p) x (p_a p) (p_spread p) / p_EI p]"
| "system_of_odes p x Y = Inl ValueError"

definition rk4_step ::
  "(real \<Rightarrow> ndarray \<Rightarrow> error + ndarray) \<Rightarrow> real \<Rightarrow> ndarray \<Rightarrow> real \<Rightarrow> error + ndarray" where
  "rk4_step f x Y h =
     bind (f x Y) (\<lambda>k1.
     bind (np_add Y (np_sdiv (np_smul h k1) 2)) (\<lambda>Y1.
     bind (f (x + h / 2) Y1) (\<lambda>k2.
     bind (np_add Y (np_sdiv (np_smul h k2) 2)) (\<lambda>Y2.
     bind (f (x + h / 2) Y2) (\<lambda>k3.
     bind (np_add Y (np_smul h k3)) (\<lambda>Y3.
     bind (f (x + h) Y3) (\<lambda>k4.
     bind (np_add k1 (np_smul 2 k2)) (\<lambda>s1.
     bind (np_add s1 (np_smul 2 k3)) (\<lambda>s2.
     bind (np_add s2 k4) (\<lambda>s3.
     np_add Y (np_smul (h / 6) s3)))))))))))"

text \<open>
  \<open>np.arange(start, stop, step)\<close> on floats has \<open>ceil((stop - start) / step)\<close>
  elements \<open>start + i * step\<close>; a zero step raises ZeroDivisionError. The number of
  elements is computed here on the exact quotient: the rounded quotient of the code can
  give one element more or less.
\<close>

definition np_arange :: "real \<Rightarrow> real \<Rightarrow> real \<Rightarrow> error + ndarray" where
  "np_arange start stop step =
     (if step = 0 then Inl ZeroDivisionError
      else Inr (map (\<lambda>i. start + real i * step) [0..<nat \<lceil>(stop - start) / step\<rceil>]))"

text \<open>\<open>Y[0]\<close>\<close>

fun np_first :: "ndarray \<Rightarrow> error + real" where
  "np_first [] = Inl IndexError"
| "np_first (y # ys) = Inr y"

text \<open>
  The loop \<^verbatim>\<open>for x in x_vals\<close>: the deflection is stored, then the state advances.
\<close>

fun rk4_loop :: "params \<Rightarrow> real list \<Rightarrow> ndarray \<Rightarrow> error + real list" where
  "rk4_loop p [] Y = Inr []"
| "rk4_loop p (x # xs) Y =
     bind (np_first Y) (\<lambda>y.
     bind (rk4_step (system_of_odes p) x Y (p_dx p)) (\<lambda>Y'.
     bind (rk4_loop p xs Y') (\<lambda>ys. Inr (y # ys))))"

definition beam_deflection_rk4 :: "params \<Rightarrow> error + (real list \<times> real list)" where
  "beam_deflection_rk4 p =
     bind (np_arange 0 (p_L p + p_dx p) (p_dx p)) (\<lambda>x_vals.
     bind (rk4_loop p x_vals [0, 0, 0, 0]) (\<lambda>y_deflections.
     Inr (x_vals, y_deflections)))"

subsection \<open>The central-difference solver\<close>

type_synonym matrix = "real list list"

text \<open>
  \<open>np.linspace(start, stop, num)\<close>: \<open>num\<close> points \<open>start + i * step\<close> with
  \<open>step = (stop - start) / (num - 1)\<close>, the single point \<open>start\<close> when \<open>num = 1\<close>
  and no point when \<open>num = 0\<close>. The number of points is a natural number: a negative
  one makes \<open>np.linspace\<close> raise ValueError before anything else happens.
\<close>

definition np_linspace :: "real \<Rightarrow> real \<Rightarrow> nat \<Rightarrow> ndarray" where
  "np_linspace start stop num =
     (if num = 1 then [start]
      else map (\<lambda>i. start + real i * ((stop - start) / real (num - 1))) [0..<num])"

text \<open>
  An index of Python into a dimension of size \<open>n\<close>: a negative index counts from the
  end, and an index outside \<open>-n .. n-1\<close> raises IndexError.
\<close>

definition py_index :: "nat \<Rightarrow> int \<Rightarrow> error + nat" where
  "py_index n i =
     (if 0 \<le> i \<and> i < int n then Inr (nat i)
      else if - int n \<le> i \<and> i < 0 then Inr (nat (int n + i))
      else Inl IndexError)"

text \<open>\<open>A[i, j] = v\<close> and \<open>b[i] = v\<close>\<close>

definition mat_set :: "matrix \<Rightarrow> int \<Rightarrow> int \<Rightarrow> real \<Rightarrow> error + matrix" where
  "mat_set A i j v =
     bind (py_index (length A) i) (\<lambda>r.
     bind (py_index (length (A ! r)) j) (\<lambda>c.
     Inr (A[r := (A ! r)[c := v]])))"

definition vec_set :: "ndarray \<Rightarrow> int \<Rightarrow> real \<Rightarrow> error + ndarray" where
  "vec_set b i v = bind (py_index (length b) i) (\<lambda>r. Inr (b[r := v]))"

text \<open>The body of the loop \<^verbatim>\<open>for i in range(2, N - 2)\<close>, and the loop.\<close>

definition fill_row :: "matrix \<Rightarrow> nat \<Rightarrow> error + matrix" where
  "fill_row A i =
     bind (mat_set A (int i) (int i - 2) 1) (\<lambda>A.
     bind (mat_set A (int i) (int i - 1) (- 4)) (\<lambda>A.
     bind (mat_set A (int i) (int i) 6) (\<lambda>A.
     bind (mat_set A (int i) (int i + 1) (- 4)) (\<lambda>A.
     mat_set A (int i) (int i + 2) 1))))"

fun fill_rows :: "matrix \<Rightarrow> nat list \<Rightarrow> error + matrix" where
  "fill_rows A [] = Inr A"
| "fill_rows A (i # is) = bind (fill_row A i) (\<lambda>A'. fill_rows A' is)"

text \<open>
  Lines 56 to 74 of \<open>beam_deflection_central_difference\<close>: the grid, the matrix
  \<open>A\<close> and the right-hand side \<open>b\<close> handed to the linear solve. \<open>L / (N - 1)\<close>
  divides a Python float by a Python int and raises ZeroDivisionError when \<open>N = 1\<close>.
  The load is sampled with the spread \<open>0.1\<close> written in the call. The targets of a
  chained assignment are assigned from left to right. The power \<open>dx ** 4\<close> is taken
  in exact arithmetic here; its OverflowError is added by
  \<open>beam_deflection_central_difference_py\<close>.
\<close>

definition cd_system :: "params \<Rightarrow> error + (ndarray \<times> matrix \<times> ndarray)" where
  "cd_system p =
     (let n = p_N p;
          x_vals = np_linspace 0 (p_L p) n
      in if n = 1 then Inl ZeroDivisionError
      else
        let dx = p_L p / real_of_int (int n - 1);
            w_vals = map (\<lambda>x. gaussian_load (p_P p) x (p_a p) (1 / 10)) x_vals;
            rhs = map (\<lambda>w. w / p_EI p * dx ^ 4) w_vals;
            A = replicate n (replicate n 0);
            b = rhs
        in
          bind (fill_rows A [2..<n - 2]) (\<lambda>A.
          bind (mat_set A 0 0 1) (\<lambda>A.
          bind (mat_set A 1 1 1) (\<lambda>A.
          bind (mat_set A (- 2) (- 2) 1) (\<lambda>A.
          bind (mat_set A (- 1) (- 1) 1) (\<lambda>A.
          bind (vec_set b 0 0) (\<lambda>b.
          bind (vec_set b 1 0) (\<lambda>b.
          bind (vec_set b (- 2) 0) (\<lambda>b.
          bind (vec_set b (- 1) 0) (\<lambda>b.
          Inr (x_vals, A, b)))))))))))"

text \<open>
  \<open>np.linalg.solve(A, b)\<close> is library code. Over the reals it is determined by its
  documentation: it raises LinAlgError when the square matrix \<open>A\<close> is singular, and
  returns the solution \<open>y\<close> of \<open>A y = b\<close> otherwise. It is a relation between the
  arguments and the outcome. The rounding of the factorisation is not modelled: the
  value the library returns is the exact solution up to a rounding residue, so that an
  entry that is zero here need not be exactly zero in float64.
\<close>

definition dot :: "ndarray \<Rightarrow> ndarray \<Rightarrow> real" where
  "dot u v = sum_list (map2 (*) u v)"

definition mat_vec :: "matrix \<Rightarrow> ndarray \<Rightarrow> ndarray" where
  "mat_vec A v = map (\<lambda>row. dot row v) A"

definition singular :: "matrix \<Rightarrow> bool" where
  "singular A \<longleftrightarrow>
     (\<exists>v. length v = length A \<and> v \<noteq> replicate (length A) 0 \<and>
          mat_vec A v = replicate (length A) 0)"

definition linalg_solve :: "matrix \<Rightarrow> ndarray \<Rightarrow> error + ndarray \<Rightarrow> bool" where
  "linalg_solve A b r \<longleftrightarrow>
     (if singular A then r = Inl LinAlgError
      else \<exists>y. r = Inr y \<and> length y = length A \<and> mat_vec A y = b)"

text \<open>The solver: \<open>r\<close> is an outcome of the call.\<close>

definition beam_deflection_central_difference ::
  "params \<Rightarrow> error + (ndarray \<times> ndarray) \<Rightarrow> bool" where
  "beam_deflection_central_difference p r \<longleftrightarrow>
     (case cd_system p of
        Inl e \<Rightarrow> r = Inl e
      | Inr (x_vals, A, b) \<Rightarrow>
          (\<exists>s. linalg_solve A b s \<and>
               r = (case s of Inl e \<Rightarrow> Inl e | Inr y_deflections \<Rightarrow> Inr (x_vals, y_deflections))))"

subsection \<open>The range of a double\<close>

text \<open>
  A real result of magnitude \<open>2^1024 - 2^970\<close> or more rounds to infinity in
  float64. Python's float power \<open>x ** n\<close> then raises OverflowError, while a product or
  a quotient of Python floats, and every numpy operation, returns infinity.
\<close>

definition float_overflow :: "real \<Rightarrow> bool" where
  "float_overflow v \<longleftrightarrow> 2 ^ 1024 - 2 ^ 970 \<le> \<bar>v\<bar>"

text \<open>
  The central-difference solver with the range of \<open>dx ** 4\<close> at line 59: the power
  is evaluated after \<open>dx = L / (N - 1)\<close>, which raises first when \<open>N = 1\<close>, and
  before the matrix is built. Within the range the outcome is the one of
  \<open>beam_deflection_central_difference\<close>.
\<close>

definition beam_deflection_central_difference_py ::
  "params \<Rightarrow> error + (ndarray \<times> ndarray) \<Rightarrow> bool" where
  "beam_deflection_central_difference_py p r \<longleftrightarrow>
     (if p_N p \<noteq> 1 \<and> float_overflow ((p_L p / real_of_int (int (p_N p) - 1)) ^ 4)
      then r = Inl OverflowError
      else beam_deflection_central_difference p r)"

text \<open>
  Parameters for which \<open>spread ** 2\<close> neither overflows nor underflows to zero, and
  \<open>dx ** 4\<close> does not overflow, with a margin for the rounding of the operands.
\<close>

definition in_double_range :: "params \<Rightarrow> bool" where
  "in_double_range p \<longleftrightarrow>
     1 / 2 ^ 500 \<le> p_spread p \<and> p_spread p \<le> 2 ^ 500 \<and>
     (p_L p / (real (p_N p) - 1)) ^ 4 \<le> 2 ^ 1023"

text \<open>The script's beam with a length whose \<open>dx ** 4\<close> leaves the range of a double.\<close>

definition long_beam :: params where
  "long_beam = ridwan_params\<lparr>p_L := 10 ^ 80, p_N := 5\<rparr>"

subsection \<open>The load function in float64\<close>

text \<open>
  A float64 value: a finite real, an infinity or NaN. The sign of a zero is not kept; in
  the load function the only divisors that can be zero are \<open>2 * spread ** 2\<close>, which is
  never negative, and \<open>spread * np.sqrt(2 * np.pi)\<close>, which is zero only with
  \<open>spread\<close>, where the result is NaN for a zero of either sign.
\<close>

datatype npfloat = Finite real | PosInf | NegInf | NaN

text \<open>
  Whether the argument \<open>x\<close> is a Python float or a numpy value. Both solvers pass
  numpy values: the elements of \<open>np.arange\<close> and their sums in the Runge-Kutta march,
  the array of \<open>np.linspace\<close> in the central-difference solver. \<open>a\<close> and \<open>spread\<close>
  are Python floats in every call of the script.
\<close>

datatype number = PyFloat | NpFloat64

text \<open>
  The float64 that stores a real result: an infinity from \<open>2^1024 - 2^970\<close> on, zero
  up to half the smallest subnormal \<open>2^-1074\<close>, and in between the real itself, rounding
  being abstracted.
\<close>

definition float_underflow :: "real \<Rightarrow> bool" where
  "float_underflow v \<longleftrightarrow> \<bar>v\<bar> \<le> 1 / 2 ^ 1075"

definition fl :: "real \<Rightarrow> npfloat" where
  "fl v =
     (if float_overflow v then (if 0 < v then PosInf else NegInf)
      else if float_underflow v then Finite 0
      else Finite v)"

text \<open>
  The IEEE operations of the expression, as numpy evaluates them: none raises, a division
  by zero gives an infinity or NaN.
\<close>

fun np_negative :: "npfloat \<Rightarrow> npfloat" where
  "np_negative (Finite v) = Finite (- v)"
| "np_negative PosInf = NegInf"
| "np_negative NegInf = PosInf"
| "np_negative NaN = NaN"

fun np_square :: "npfloat \<Rightarrow> npfloat" where
  "np_square (Finite v) = fl (v\<^sup>2)"
| "np_square PosInf = PosInf"
| "np_square NegInf = PosInf"
| "np_square NaN = NaN"

fun np_multiply :: "npfloat \<Rightarrow> npfloat \<Rightarrow> npfloat" where
  "np_multiply NaN v = NaN"
| "np_multiply u NaN = NaN"
| "np_multiply (Finite x) (Finite y) = fl (x * y)"
| "np_multiply (Finite x) PosInf = (if x = 0 then NaN else if 0 < x then PosInf else NegInf)"
| "np_multiply (Finite x) NegInf = (if x = 0 then NaN else if 0 < x then NegInf else PosInf)"
| "np_multiply PosInf (Finite y) = (if y = 0 then NaN else if 0 < y then PosInf else NegInf)"
| "np_multiply NegInf (Finite y) = (if y = 0 then NaN else if 0 < y then NegInf else PosInf)"
| "np_multiply PosInf PosInf = PosInf"
| "np_multiply NegInf NegInf = PosInf"
| "np_multiply PosInf NegInf = NegInf"
| "np_multiply NegInf PosInf = NegInf"

fun np_true_divide :: "npfloat \<Rightarrow> npfloat \<Rightarrow> npfloat" where
  "np_true_divide NaN v = NaN"
| "np_true_divide u NaN = NaN"
| "np_true_divide (Finite x) (Finite y) =
     (if y \<noteq> 0 then fl (x / y)
      else if x = 0 then NaN
      else if 0 < x then PosInf else NegInf)"
| "np_true_divide (Finite x) PosInf = Finite 0"
| "np_true_divide (Finite x) NegInf = Finite 0"
| "np_true_divide PosInf (Finite y) = (if 0 \<le> y then PosInf else NegInf)"
| "np_true_divide NegInf (Finite y) = (if 0 \<le> y then NegInf else PosInf)"
| "np_true_divide PosInf PosInf = NaN"
| "np_true_divide PosInf NegInf = NaN"
| "np_true_divide NegInf PosInf = NaN"
| "np_true_divide NegInf NegInf = NaN"

fun np_exp :: "npfloat \<Rightarrow> npfloat" where
  "np_exp (Finite v) = fl (exp v)"
| "np_exp PosInf = PosInf"
| "np_exp NegInf = Finite 0"
| "np_exp NaN = NaN"

text \<open>
  The two operations that raise on Python floats: \<open>v ** 2\<close> raises OverflowError when
  the square of a finite \<open>v\<close> leaves the range, and \<open>u / v\<close> raises ZeroDivisionError
  for every zero divisor.
\<close>

fun py_square :: "npfloat \<Rightarrow> error + npfloat" where
  "py_square (Finite v) = (if float_overflow (v\<^sup>2) then Inl OverflowError else Inr (fl (v\<^sup>2)))"
| "py_square u = Inr (np_square u)"

definition py_true_divide :: "npfloat \<Rightarrow> npfloat \<Rightarrow> error + npfloat" where
  "py_true_divide u v = (if v = Finite 0 then Inl ZeroDivisionError else Inr (np_true_divide u v))"

text \<open>
  Line 19 in its order of evaluation: \<open>(x - a) ** 2\<close> by the kind of \<open>x\<close>,
  \<open>spread ** 2\<close> on a Python float, the first quotient by the kind of \<open>x\<close>, and
  from \<open>np.exp\<close> on numpy operations only. The first argument is the global \<open>P\<close>.
\<close>

definition gaussian_load_py ::
  "number \<Rightarrow> real \<Rightarrow> real \<Rightarrow> real \<Rightarrow> real \<Rightarrow> error + npfloat" where
  "gaussian_load_py kind Pl x al sp =
     (let d = fl (x - al) in
      bind (if kind = PyFloat then py_square d else Inr (np_square d)) (\<lambda>t2.
      bind (py_square (Finite sp)) (\<lambda>s2.
      bind (if kind = PyFloat
            then py_true_divide (np_negative t2) (np_multiply (Finite 2) s2)
            else Inr (np_true_divide (np_negative t2) (np_multiply (Finite 2) s2))) (\<lambda>q.
      Inr (np_true_divide (np_multiply (Finite Pl) (np_exp q))
             (np_multiply (Finite sp) (Finite (sqrt (2 * pi)))))))))"

subsection \<open>Vocabulary of the statements\<close>

text \<open>The parameters the specification calls valid.\<close>

definition valid_params :: "params \<Rightarrow> bool" where
  "valid_params p \<longleftrightarrow>
     0 < p_L p \<and> 0 < p_EI p \<and> 0 \<le> p_a p \<and> p_a p \<le> p_L p \<and>
     0 < p_spread p \<and> 0 < p_dx p \<and> 5 \<le> p_N p"

text \<open>Row \<open>i\<close> of the identity, and the row of the stencil centred at column \<open>i\<close>.\<close>

definition unit_row :: "nat \<Rightarrow> nat \<Rightarrow> real list" where
  "unit_row n i = (replicate n 0)[i := 1]"

definition stencil_row :: "nat \<Rightarrow> nat \<Rightarrow> real list" where
  "stencil_row n i =
     (replicate n 0)[i - 2 := 1, i - 1 := - 4, i := 6, i + 1 := - 4, i + 2 := 1]"

definition interior :: "nat \<Rightarrow> nat \<Rightarrow> bool" where
  "interior n i \<longleftrightarrow> 2 \<le> i \<and> i + 2 < n"

text \<open>
  What the assembly computes for \<open>N \<ge> 2\<close>: the entries of the right-hand side before
  the boundary entries are zeroed, the matrix and the right-hand side.
\<close>

definition cd_rhs :: "params \<Rightarrow> nat \<Rightarrow> real" where
  "cd_rhs p i =
     gaussian_load (p_P p) (real i * (p_L p / real (p_N p - 1))) (p_a p) (1 / 10) / p_EI p *
       (p_L p / real (p_N p - 1)) ^ 4"

definition cd_matrix :: "nat \<Rightarrow> matrix" where
  "cd_matrix n = map (\<lambda>i. if interior n i then stencil_row n i else unit_row n i) [0..<n]"

definition cd_vector :: "params \<Rightarrow> ndarray" where
  "cd_vector p = map (\<lambda>i. if interior (p_N p) i then cd_rhs p i else 0) [0..<p_N p]"

text \<open>
  The sequence that starts with \<open>0, 0, \<alpha>, \<beta>\<close> and continues by the stencil equation
  \<open>y k - 4 y (k+1) + 6 y (k+2) - 4 y (k+3) + y (k+4) = c k\<close>, solved for its last term.
  It is used to construct a solution of the linear system.
\<close>

fun shoot :: "real \<Rightarrow> real \<Rightarrow> (nat \<Rightarrow> real) \<Rightarrow> nat \<Rightarrow> real" where
  "shoot \<alpha> \<beta> c 0 = 0"
| "shoot \<alpha> \<beta> c (Suc 0) = 0"
| "shoot \<alpha> \<beta> c (Suc (Suc 0)) = \<alpha>"
| "shoot \<alpha> \<beta> c (Suc (Suc (Suc 0))) = \<beta>"
| "shoot \<alpha> \<beta> c (Suc (Suc (Suc (Suc k)))) =
     c k - shoot \<alpha> \<beta> c k + 4 * shoot \<alpha> \<beta> c (Suc k) - 6 * shoot \<alpha> \<beta> c (Suc (Suc k)) +
       4 * shoot \<alpha> \<beta> c (Suc (Suc (Suc k)))"

text \<open>
  The two lists a call of \<open>beam_deflection_rk4\<close> returns (empty if it raises), the
  number of points of its grid and the grid.
\<close>

definition rk4_positions :: "params \<Rightarrow> real list" where
  "rk4_positions p = (case beam_deflection_rk4 p of Inl e \<Rightarrow> [] | Inr (xs, ys) \<Rightarrow> xs)"

definition rk4_deflections :: "params \<Rightarrow> real list" where
  "rk4_deflections p = (case beam_deflection_rk4 p of Inl e \<Rightarrow> [] | Inr (xs, ys) \<Rightarrow> ys)"

definition rk4_count :: "params \<Rightarrow> nat" where
  "rk4_count p = nat \<lceil>(p_L p + p_dx p) / p_dx p\<rceil>"

definition rk4_grid :: "params \<Rightarrow> real list" where
  "rk4_grid p = map (\<lambda>i. real i * p_dx p) [0..<rk4_count p]"

text \<open>A beam of length one that the Runge-Kutta solver crosses in one step.\<close>

definition short_beam :: params where
  "short_beam =
     \<lparr> p_L = 1, p_EI = 1, p_P = 72, p_a = 0, p_spread = 1, p_dx = 1, p_N = 5 \<rparr>"

text \<open>The fourth component of \<open>system_of_odes\<close>: \<open>w / EI\<close> at \<open>x\<close>.\<close>

definition load_at :: "params \<Rightarrow> real \<Rightarrow> real" where
  "load_at p x = gaussian_load (p_P p) x (p_a p) (p_spread p) / p_EI p"

section \<open>Properties\<close>

lemma bind_Inr [simp]: "bind (Inr v) k = k v"
  by (simp add: bind_def)

lemma bind_Inl [simp]: "bind (Inl e) k = Inl e"
  by (simp add: bind_def)

lemma np_add_same_length:
  "length u = length v \<Longrightarrow> np_add u v = Inr (map2 (+) u v)"
  by (simp add: np_add_def)

lemma map2_nth:
  "length u = length v \<Longrightarrow> map2 f u v = map (\<lambda>i. f (u ! i) (v ! i)) [0..<length u]"
  by (rule nth_equalityI) simp_all

text \<open>
  C1. One Runge-Kutta step returns \<open>Y + (h/6)(k1 + 2 k2 + 2 k3 + k4)\<close>, componentwise,
  where \<open>k1 = f(x, Y)\<close>, \<open>k2 = f(x + h/2, Y + h k1/2)\<close>, \<open>k3 = f(x + h/2, Y + h k2/2)\<close>
  and \<open>k4 = f(x + h, Y + h k3)\<close>, for every right-hand side \<open>f\<close> whose values have
  the shape of \<open>Y\<close>.
\<close>

theorem rk4_step_formula:
  assumes "f x Y = Inr k1"
    and "f (x + h / 2) (map2 (\<lambda>y k. y + h * k / 2) Y k1) = Inr k2"
    and "f (x + h / 2) (map2 (\<lambda>y k. y + h * k / 2) Y k2) = Inr k3"
    and "f (x + h) (map2 (\<lambda>y k. y + h * k) Y k3) = Inr k4"
    and "length k1 = length Y" and "length k2 = length Y"
    and "length k3 = length Y" and "length k4 = length Y"
  shows "rk4_step f x Y h =
           Inr (map (\<lambda>i. Y ! i + (h / 6) * (k1 ! i + 2 * k2 ! i + 2 * k3 ! i + k4 ! i))
                  [0..<length Y])"
proof -
  let ?n = "length Y"
  have a1: "np_add Y (np_sdiv (np_smul h k1) 2) = Inr (map2 (\<lambda>y k. y + h * k / 2) Y k1)"
    using assms(5) by (simp add: np_add_def np_sdiv_def np_smul_def zip_map2 split_def)
  have a2: "np_add Y (np_sdiv (np_smul h k2) 2) = Inr (map2 (\<lambda>y k. y + h * k / 2) Y k2)"
    using assms(6) by (simp add: np_add_def np_sdiv_def np_smul_def zip_map2 split_def)
  have a3: "np_add Y (np_smul h k3) = Inr (map2 (\<lambda>y k. y + h * k) Y k3)"
    using assms(7) by (simp add: np_add_def np_smul_def zip_map2 split_def)
  have s1: "np_add k1 (np_smul 2 k2) = Inr (map (\<lambda>i. k1 ! i + 2 * k2 ! i) [0..<?n])"
    using assms(5,6) by (simp add: np_add_same_length np_smul_def map2_nth)
  have s2: "np_add (map (\<lambda>i. k1 ! i + 2 * k2 ! i) [0..<?n]) (np_smul 2 k3) =
              Inr (map (\<lambda>i. k1 ! i + 2 * k2 ! i + 2 * k3 ! i) [0..<?n])"
    using assms(7) by (simp add: np_add_same_length np_smul_def map2_nth)
  have s3: "np_add (map (\<lambda>i. k1 ! i + 2 * k2 ! i + 2 * k3 ! i) [0..<?n]) k4 =
              Inr (map (\<lambda>i. k1 ! i + 2 * k2 ! i + 2 * k3 ! i + k4 ! i) [0..<?n])"
    using assms(8) by (simp add: np_add_same_length map2_nth)
  have s4: "np_add Y (np_smul (h / 6)
                (map (\<lambda>i. k1 ! i + 2 * k2 ! i + 2 * k3 ! i + k4 ! i) [0..<?n])) =
              Inr (map (\<lambda>i. Y ! i + (h / 6) * (k1 ! i + 2 * k2 ! i + 2 * k3 ! i + k4 ! i))
                     [0..<?n])"
    by (simp add: np_add_same_length np_smul_def map2_nth)
  show ?thesis
    unfolding rk4_step_def
    by (simp only: assms(1-4) a1 a2 a3 s1 s2 s3 s4 bind_Inr)
qed

theorem rk4_step_formula_witness:
  "rk4_step (\<lambda>x Y. Inr Y) 0 [1, 2] 1 = Inr [65 / 24, 65 / 12]"
  using rk4_step_formula [of "\<lambda>x Y. Inr Y" 0 "[1, 2]" "[1, 2]" 1 "[3 / 2, 3]"
      "[7 / 4, 7 / 2]" "[11 / 4, 11 / 2]"]
  by (simp add: upt_rec)

subsection \<open>The Runge-Kutta march\<close>

lemma system_of_odes_load:
  "system_of_odes p x [y1, y2, y3, y4] = Inr [y2, y3, y4, load_at p x]"
  by (simp add: load_at_def)

lemma rk4_step_odes:
  "rk4_step (system_of_odes p) x [y1, y2, y3, y4] h =
     Inr [y1 + h / 6 * (6 * y2 + 3 * h * y3 + h\<^sup>2 * y4 + h ^ 3 * load_at p x / 4),
          y2 + h / 6 * (6 * y3 + 3 * h * y4 + h\<^sup>2 * load_at p x / 2 + h\<^sup>2 * load_at p (x + h / 2) / 2),
          y3 + h / 6 * (6 * y4 + h * load_at p x + 2 * h * load_at p (x + h / 2)),
          y4 + h / 6 * (load_at p x + 4 * load_at p (x + h / 2) + load_at p (x + h))]"
  unfolding rk4_step_def
  by (simp add: system_of_odes_load np_add_def np_sdiv_def np_smul_def power2_eq_square power3_eq_cube
        del: system_of_odes.simps) (auto simp add: field_simps)

lemma load_at_zero: "p_P p = 0 \<Longrightarrow> load_at p x = 0"
  by (simp add: load_at_def gaussian_load_def)

lemma load_at_pos:
  "0 < p_P p \<Longrightarrow> 0 < p_EI p \<Longrightarrow> 0 < p_spread p \<Longrightarrow> 0 < load_at p x"
  by (simp add: load_at_def gaussian_load_def)

lemma rk4_loop_zero:
  "p_P p = 0 \<Longrightarrow> rk4_loop p xs [0, 0, 0, 0] = Inr (replicate (length xs) 0)"
  by (induction xs) (simp_all add: rk4_step_odes load_at_zero)

lemma rk4_loop_first:
  "rk4_loop p (x # xs) [y1, y2, y3, y4] = Inr ys \<Longrightarrow> hd ys = y1"
  by (auto simp add: rk4_step_odes bind_def split: sum.splits)

lemma rk4_loop_increasing:
  assumes "0 < p_P p" and "0 < p_EI p" and "0 < p_spread p" and "0 < p_dx p"
  shows "0 \<le> y1 \<Longrightarrow> 0 \<le> y2 \<Longrightarrow> 0 \<le> y3 \<Longrightarrow> 0 \<le> y4 \<Longrightarrow>
         \<exists>ys. rk4_loop p xs [y1, y2, y3, y4] = Inr ys \<and> length ys = length xs \<and>
              sorted_wrt (<) ys \<and> (\<forall>y\<in>set ys. y1 \<le> y)"
proof (induction xs arbitrary: y1 y2 y3 y4)
  case Nil
  then show ?case by simp
next
  case (Cons x xs)
  let ?h = "p_dx p"
  let ?z1 = "y1 + ?h / 6 * (6 * y2 + 3 * ?h * y3 + ?h\<^sup>2 * y4 + ?h ^ 3 * load_at p x / 4)"
  let ?z2 = "y2 + ?h / 6 * (6 * y3 + 3 * ?h * y4 + ?h\<^sup>2 * load_at p x / 2 + ?h\<^sup>2 * load_at p (x + ?h / 2) / 2)"
  let ?z3 = "y3 + ?h / 6 * (6 * y4 + ?h * load_at p x + 2 * ?h * load_at p (x + ?h / 2))"
  let ?z4 = "y4 + ?h / 6 * (load_at p x + 4 * load_at p (x + ?h / 2) + load_at p (x + ?h))"
  have w: "\<And>t. 0 < load_at p t"
    using assms by (simp add: load_at_pos)
  have h: "0 < ?h" by (rule assms(4))
  have inc: "0 < 6 * y2 + 3 * ?h * y3 + ?h\<^sup>2 * y4 + ?h ^ 3 * load_at p x / 4"
    using Cons.prems h w [of x]
    by (intro add_nonneg_pos add_nonneg_nonneg mult_nonneg_nonneg) simp_all
  have z1: "y1 < ?z1"
    using inc h by simp
  have z2: "0 \<le> ?z2"
    using Cons.prems h w [of x] w [of "x + ?h / 2"]
    by (intro add_nonneg_nonneg mult_nonneg_nonneg) simp_all
  have z3: "0 \<le> ?z3"
    using Cons.prems h w [of x] w [of "x + ?h / 2"]
    by (intro add_nonneg_nonneg mult_nonneg_nonneg) simp_all
  have z4: "0 \<le> ?z4"
    using Cons.prems h w [of x] w [of "x + ?h / 2"] w [of "x + ?h"]
    by (intro add_nonneg_nonneg mult_nonneg_nonneg) simp_all
  have "0 \<le> ?z1" using z1 Cons.prems(1) by linarith
  from Cons.IH [OF this z2 z3 z4]
  obtain ys where ys: "rk4_loop p xs [?z1, ?z2, ?z3, ?z4] = Inr ys" "length ys = length xs"
    "sorted_wrt (<) ys" "\<forall>y\<in>set ys. ?z1 \<le> y"
    by blast
  have "rk4_loop p (x # xs) [y1, y2, y3, y4] = Inr (y1 # ys)"
    by (simp only: rk4_loop.simps np_first.simps bind_Inr rk4_step_odes ys(1))
  moreover have "\<forall>y\<in>set ys. y1 < y"
    using ys(4) z1 by (blast intro: less_le_trans)
  ultimately show ?case
    using ys(2,3) Cons.prems(1) by (auto intro: less_imp_le)
qed

subsection \<open>The assembly of the linear system\<close>

lemma py_index_nat: "i < n \<Longrightarrow> py_index n (int i) = Inr i"
  by (simp add: py_index_def)

lemma py_index_neg2: "2 \<le> n \<Longrightarrow> py_index n (- 2) = Inr (n - 2)"
  by (auto simp add: py_index_def nat_diff_distrib')

lemma py_index_neg1: "1 \<le> n \<Longrightarrow> py_index n (- 1) = Inr (n - 1)"
  by (auto simp add: py_index_def nat_diff_distrib')

lemma mat_set_nat:
  "i < length A \<Longrightarrow> j < length (A ! i) \<Longrightarrow>
   mat_set A (int i) (int j) v = Inr (A[i := (A ! i)[j := v]])"
  by (simp add: mat_set_def py_index_nat)

lemma mat_set_int:
  "i < length A \<Longrightarrow> 0 \<le> j \<Longrightarrow> nat j < length (A ! i) \<Longrightarrow>
   mat_set A (int i) j v = Inr (A[i := (A ! i)[nat j := v]])"
  by (simp add: mat_set_def py_index_def)

lemma fill_row_eq:
  assumes "2 \<le> i" and "i + 2 < length (A ! i)" and "i < length A"
  shows "fill_row A i =
           Inr (A[i := (A ! i)[i - 2 := 1, i - 1 := - 4, i := 6, i + 1 := - 4, i + 2 := 1]])"
proof -
  have n: "nat (int i - 2) = i - 2" "nat (int i - 1) = i - 1" "nat (int i) = i"
    "nat (int i + 1) = i + 1" "nat (int i + 2) = i + 2"
    by simp_all
  show ?thesis
    unfolding fill_row_def
    using assms by (simp add: mat_set_int n)
qed

lemma fill_rows_eq:
  assumes "distinct js" and "\<forall>i\<in>set js. 2 \<le> i \<and> i + 2 < n"
    and "length A = n" and "\<forall>i<n. length (A ! i) = n"
  shows "\<exists>R. fill_rows A js = Inr R \<and> length R = n \<and>
           (\<forall>i<n. R ! i = (if i \<in> set js
              then (A ! i)[i - 2 := 1, i - 1 := - 4, i := 6, i + 1 := - 4, i + 2 := 1]
              else A ! i))"
  using assms
proof (induction js arbitrary: A)
  case Nil
  then show ?case by simp
next
  case (Cons j js)
  let ?A = "A[j := (A ! j)[j - 2 := 1, j - 1 := - 4, j := 6, j + 1 := - 4, j + 2 := 1]]"
  have j: "2 \<le> j" "j + 2 < n" using Cons.prems(2) by simp_all
  have step: "fill_row A j = Inr ?A"
    using j Cons.prems(3,4) by (intro fill_row_eq) simp_all
  have len: "length ?A = n" using Cons.prems(3) by simp
  have rows: "\<forall>i<n. length (?A ! i) = n"
    using Cons.prems(3,4) j by (auto simp add: nth_list_update)
  from Cons.IH [OF _ _ len rows] Cons.prems(1,2)
  obtain R where R: "fill_rows ?A js = Inr R" "length R = n"
    "\<forall>i<n. R ! i = (if i \<in> set js
        then (?A ! i)[i - 2 := 1, i - 1 := - 4, i := 6, i + 1 := - 4, i + 2 := 1]
        else ?A ! i)"
    by auto
  have "fill_rows A (j # js) = Inr R"
    by (simp only: fill_rows.simps step bind_Inr R(1))
  moreover have "\<forall>i<n. R ! i = (if i \<in> set (j # js)
        then (A ! i)[i - 2 := 1, i - 1 := - 4, i := 6, i + 1 := - 4, i + 2 := 1]
        else A ! i)"
    using R(3) Cons.prems(1,3) j by (auto simp add: nth_list_update)
  ultimately show ?case using R(2) by blast
qed

lemma fill_rows_zeros:
  "\<exists>R. fill_rows (replicate n (replicate n 0)) [2..<n - 2] = Inr R \<and> length R = n \<and>
       (\<forall>i<n. R ! i = (if interior n i then stencil_row n i else replicate n 0))"
proof -
  have "\<exists>R. fill_rows (replicate n (replicate n 0)) [2..<n - 2] = Inr R \<and> length R = n \<and>
           (\<forall>i<n. R ! i = (if i \<in> set [2..<n - 2]
              then (replicate n (replicate n (0::real)) ! i)[i - 2 := 1, i - 1 := - 4, i := 6, i + 1 := - 4, i + 2 := 1]
              else replicate n (replicate n 0) ! i))"
    by (rule fill_rows_eq) auto
  then show ?thesis
    by (auto simp add: interior_def stencil_row_def)
qed

lemma mat_set_diag:
  assumes "py_index (length A) i = Inr k" and "length (A ! k) = length A"
  shows "mat_set A i i v = Inr (A[k := (A ! k)[k := v]])"
  using assms by (simp add: mat_set_def)

lemma not_interior_iff:
  "2 \<le> n \<Longrightarrow> i < n \<Longrightarrow> \<not> interior n i \<longleftrightarrow> i = 0 \<or> i = 1 \<or> i = n - 2 \<or> i = n - 1"
  by (auto simp add: interior_def)

lemma cd_system_matrix:
  assumes n: "2 \<le> n"
  shows "bind (fill_rows (replicate n (replicate n 0)) [2..<n - 2]) (\<lambda>A.
          bind (mat_set A 0 0 1) (\<lambda>A.
          bind (mat_set A 1 1 1) (\<lambda>A.
          bind (mat_set A (- 2) (- 2) 1) (\<lambda>A.
          bind (mat_set A (- 1) (- 1) 1) k)))) = k (cd_matrix n)"
proof -
  obtain R where R: "fill_rows (replicate n (replicate n 0)) [2..<n - 2] = Inr R"
    "length R = n" "\<forall>i<n. R ! i = (if interior n i then stencil_row n i else replicate n 0)"
    using fill_rows_zeros [of n] by blast
  have rows: "\<forall>i<n. length (R ! i) = n"
    using R(3) by (simp add: stencil_row_def)
  let ?D = "\<lambda>A k. A[k := (A ! k)[k := (1::real)]]"
  let ?A1 = "?D R 0" let ?A2 = "?D ?A1 1" let ?A3 = "?D ?A2 (n - 2)" let ?A4 = "?D ?A3 (n - 1)"
  have i0: "py_index n 0 = Inr 0" and i1: "py_index n 1 = Inr 1"
    using n by (simp_all add: py_index_def)
  have i2: "py_index n (- 2) = Inr (n - 2)" and i3: "py_index n (- 1) = Inr (n - 1)"
    using n by (auto simp add: py_index_def nat_diff_distrib')
  have s1: "mat_set R 0 0 1 = Inr ?A1"
    using n R(2) rows i0 by (intro mat_set_diag) simp_all
  have s2: "mat_set ?A1 1 1 1 = Inr ?A2"
    using n R(2) rows i1 by (intro mat_set_diag) (simp_all add: nth_list_update)
  have s3: "mat_set ?A2 (- 2) (- 2) 1 = Inr ?A3"
    using n R(2) rows i2 by (intro mat_set_diag) (simp_all add: nth_list_update)
  have s4: "mat_set ?A3 (- 1) (- 1) 1 = Inr ?A4"
    using n R(2) rows i3 by (intro mat_set_diag) (simp_all add: nth_list_update)
  have "?A4 = cd_matrix n"
  proof (rule nth_equalityI)
    show "length ?A4 = length (cd_matrix n)"
      using R(2) by (simp add: cd_matrix_def)
  next
    fix i assume "i < length ?A4"
    then have i: "i < n" using R(2) by simp
    show "?A4 ! i = cd_matrix n ! i"
    proof (cases "interior n i")
      case True
      then have "i \<noteq> 0" "i \<noteq> 1" "i \<noteq> n - 2" "i \<noteq> n - 1"
        by (auto simp add: interior_def)
      then have "?A4 ! i = R ! i" by simp
      then show ?thesis using True i R(3) by (simp add: cd_matrix_def)
    next
      case False
      then have c: "i = 0 \<or> i = 1 \<or> i = n - 2 \<or> i = n - 1"
        using not_interior_iff [OF n i] by simp
      have Ri: "R ! i = replicate n 0" using False i R(3) by simp
      have "?A4 ! i = (replicate n 0)[i := 1]"
        using c i n R(2) Ri by (auto simp add: nth_list_update)
      then show ?thesis using False i by (simp add: cd_matrix_def unit_row_def)
    qed
  qed
  then show ?thesis
    by (simp only: R(1) s1 s2 s3 s4 bind_Inr)
qed

lemma cd_system_vector:
  assumes n: "2 \<le> n" and b: "length b = n"
  shows "bind (vec_set b 0 0) (\<lambda>b.
          bind (vec_set b 1 0) (\<lambda>b.
          bind (vec_set b (- 2) 0) (\<lambda>b.
          bind (vec_set b (- 1) 0) k))) =
         k (map (\<lambda>i. if interior n i then b ! i else 0) [0..<n])"
proof -
  let ?b4 = "b[0 := 0, 1 := 0, n - 2 := 0, n - 1 := 0]"
  have i0: "py_index n 0 = Inr 0" and i1: "py_index n 1 = Inr 1"
    using n by (simp_all add: py_index_def)
  have i2: "py_index n (- 2) = Inr (n - 2)" and i3: "py_index n (- 1) = Inr (n - 1)"
    using n by (auto simp add: py_index_def nat_diff_distrib')
  have run: "bind (vec_set b 0 0) (\<lambda>b.
          bind (vec_set b 1 0) (\<lambda>b.
          bind (vec_set b (- 2) 0) (\<lambda>b.
          bind (vec_set b (- 1) 0) k))) = k ?b4"
    by (simp add: vec_set_def b i0 i1 i2 i3)
  have "?b4 = map (\<lambda>i. if interior n i then b ! i else 0) [0..<n]"
  proof (rule nth_equalityI)
    show "length ?b4 = length (map (\<lambda>i. if interior n i then b ! i else 0) [0..<n])"
      using b by simp
  next
    fix i assume "i < length ?b4"
    then have i: "i < n" using b by simp
    show "?b4 ! i = map (\<lambda>i. if interior n i then b ! i else 0) [0..<n] ! i"
    proof (cases "interior n i")
      case True
      then have "i \<noteq> 0" "i \<noteq> 1" "i \<noteq> n - 2" "i \<noteq> n - 1"
        by (auto simp add: interior_def)
      then show ?thesis using True i by simp
    next
      case False
      then have c: "i = 0 \<or> i = 1 \<or> i = n - 2 \<or> i = n - 1"
        using not_interior_iff [OF n i] by simp
      then show ?thesis using False i n b by (auto simp add: nth_list_update)
    qed
  qed
  then show ?thesis using run by simp
qed

lemma np_linspace_ge2:
  "2 \<le> n \<Longrightarrow> np_linspace 0 l n = map (\<lambda>i. real i * (l / real (n - 1))) [0..<n]"
  by (simp add: np_linspace_def)

lemma cd_system_eq:
  assumes n: "2 \<le> p_N p"
  shows "cd_system p = Inr (np_linspace 0 (p_L p) (p_N p), cd_matrix (p_N p), cd_vector p)"
proof -
  let ?n = "p_N p"
  let ?b = "map (\<lambda>w. w / p_EI p * (p_L p / real_of_int (int ?n - 1)) ^ 4)
              (map (\<lambda>x. gaussian_load (p_P p) x (p_a p) (1 / 10)) (np_linspace 0 (p_L p) ?n))"
  have d: "real_of_int (int ?n - 1) = real (?n - 1)"
    using n by (simp add: of_nat_diff)
  have lb: "length ?b = ?n"
    using n by (simp add: np_linspace_ge2)
  have n1: "?n \<noteq> 1" using n by simp
  have vec: "map (\<lambda>i. if interior ?n i then ?b ! i else 0) [0..<?n] = cd_vector p"
    unfolding cd_vector_def using n
    by (intro map_cong refl) (simp add: np_linspace_ge2 cd_rhs_def d interior_def)
  show ?thesis
    unfolding cd_system_def Let_def
    by (simp only: n1 if_False cd_system_matrix [OF n] cd_system_vector [OF n lb] vec)
qed

lemma cd_system_0: "p_N p = 0 \<Longrightarrow> cd_system p = Inl IndexError"
  by (simp add: cd_system_def mat_set_def py_index_def)

lemma cd_system_1: "p_N p = 1 \<Longrightarrow> cd_system p = Inl ZeroDivisionError"
  by (simp add: cd_system_def)

subsection \<open>Products with the assembled matrix\<close>

lemma dot_replicate_zero: "dot (replicate n 0) v = 0"
proof (induction n arbitrary: v)
  case 0
  then show ?case by (simp add: dot_def)
next
  case (Suc n)
  then show ?case by (cases v) (simp_all add: dot_def)
qed

lemma dot_update:
  "k < length u \<Longrightarrow> k < length v \<Longrightarrow> dot (u[k := c]) v = dot u v + (c - u ! k) * v ! k"
proof (induction u arbitrary: k v)
  case Nil
  then show ?case by simp
next
  case (Cons x u)
  then obtain y w where v: "v = y # w" by (cases v) auto
  show ?case
  proof (cases k)
    case 0
    then show ?thesis by (simp add: v dot_def algebra_simps)
  next
    case (Suc j)
    then have "dot (u[j := c]) w = dot u w + (c - u ! j) * w ! j"
      using Cons.prems v Cons.IH [of j w] by simp
    then show ?thesis using Suc by (simp add: v dot_def)
  qed
qed

lemma dot_unit_row: "i < n \<Longrightarrow> length v = n \<Longrightarrow> dot (unit_row n i) v = v ! i"
  by (simp add: unit_row_def dot_update dot_replicate_zero)

lemma dot_stencil_row:
  assumes "interior n i" and "length v = n"
  shows "dot (stencil_row n i) v =
           v ! (i - 2) - 4 * v ! (i - 1) + 6 * v ! i - 4 * v ! (i + 1) + v ! (i + 2)"
proof -
  have i: "2 \<le> i" "i + 2 < n" using assms(1) by (simp_all add: interior_def)
  then show ?thesis
    unfolding stencil_row_def using assms(2)
    by (simp add: dot_update dot_replicate_zero nth_list_update)
qed

lemma mat_vec_cd_matrix:
  assumes "length v = n"
  shows "mat_vec (cd_matrix n) v =
           map (\<lambda>i. if interior n i
                 then v ! (i - 2) - 4 * v ! (i - 1) + 6 * v ! i - 4 * v ! (i + 1) + v ! (i + 2)
                 else v ! i) [0..<n]"
  unfolding mat_vec_def cd_matrix_def using assms
  by (simp add: dot_unit_row dot_stencil_row)

subsection \<open>The stencil equations have exactly one solution\<close>

lemma sum_shift2:
  fixes g :: "nat \<Rightarrow> real"
  shows "(\<Sum>k<m + 2. g k) = g 0 + g 1 + (\<Sum>k<m. g (k + 2))"
proof -
  have "(\<Sum>k<Suc (Suc m). g k) = g 0 + (\<Sum>k<Suc m. g (Suc k))"
    by (rule sum.lessThan_Suc_shift)
  also have "(\<Sum>k<Suc m. g (Suc k)) = g (Suc 0) + (\<Sum>k<m. g (Suc (Suc k)))"
    by (rule sum.lessThan_Suc_shift)
  finally show ?thesis by simp
qed

lemma sum_shift1:
  fixes g :: "nat \<Rightarrow> real"
  shows "(\<Sum>k<m + 2. g k) = g 0 + (\<Sum>k<m. g (k + 1)) + g (m + 1)"
proof -
  have "(\<Sum>k<Suc (Suc m). g k) = g 0 + (\<Sum>k<Suc m. g (Suc k))"
    by (rule sum.lessThan_Suc_shift)
  then show ?thesis by simp
qed

lemma second_difference_energy:
  fixes y :: "nat \<Rightarrow> real"
  assumes "y 0 = 0" and "y 1 = 0" and "y (m + 2) = 0" and "y (m + 3) = 0"
  shows "(\<Sum>k<m + 2. (y k - 2 * y (k + 1) + y (k + 2))\<^sup>2) =
         (\<Sum>k<m. y (k + 2) *
            (y k - 4 * y (k + 1) + 6 * y (k + 2) - 4 * y (k + 3) + y (k + 4)))"
proof -
  define d where "d k = y k - 2 * y (k + 1) + y (k + 2)" for k
  have e3: "\<And>k::nat. k + 1 + 2 = k + 3" and e4: "\<And>k::nat. k + 2 + 2 = k + 4"
    and e22: "\<And>k::nat. k + 2 + 1 = k + 3" and e11: "\<And>k::nat. k + 1 + 1 = k + 2"
    by simp_all
  have s0: "(\<Sum>k<m + 2. d k * y k) = (\<Sum>k<m. d (k + 2) * y (k + 2))"
    using sum_shift2 [of "\<lambda>k. d k * y k" m] assms(1,2) by simp
  have s1: "(\<Sum>k<m + 2. d k * y (k + 1)) = (\<Sum>k<m. d (k + 1) * y (k + 2))"
    using sum_shift1 [of "\<lambda>k. d k * y (k + 1)" m] assms(2,3) by (simp add: e11)
  have s2: "(\<Sum>k<m + 2. d k * y (k + 2)) = (\<Sum>k<m. d k * y (k + 2))"
    using assms(3,4) by (simp add: numeral_3_eq_3)
  have "(\<Sum>k<m + 2. (d k)\<^sup>2) =
        (\<Sum>k<m + 2. d k * y k) - 2 * (\<Sum>k<m + 2. d k * y (k + 1)) + (\<Sum>k<m + 2. d k * y (k + 2))"
    unfolding sum_distrib_left sum_subtractf [symmetric] sum.distrib [symmetric]
    by (rule sum.cong) (simp_all add: d_def power2_eq_square algebra_simps)
  also have "\<dots> = (\<Sum>k<m. d (k + 2) * y (k + 2)) - 2 * (\<Sum>k<m. d (k + 1) * y (k + 2)) +
                  (\<Sum>k<m. d k * y (k + 2))"
    by (simp only: s0 s1 s2)
  also have "\<dots> = (\<Sum>k<m. y (k + 2) *
            (y k - 4 * y (k + 1) + 6 * y (k + 2) - 4 * y (k + 3) + y (k + 4)))"
    unfolding sum_distrib_left sum_subtractf [symmetric] sum.distrib [symmetric]
    by (rule sum.cong) (simp_all add: d_def eval_nat_numeral algebra_simps)
  finally show ?thesis by (simp add: d_def)
qed

lemma biharmonic_unique:
  fixes y :: "nat \<Rightarrow> real"
  assumes "y 0 = 0" and "y 1 = 0" and "y (m + 2) = 0" and "y (m + 3) = 0"
    and st: "\<And>k. k < m \<Longrightarrow> y k - 4 * y (k + 1) + 6 * y (k + 2) - 4 * y (k + 3) + y (k + 4) = 0"
  shows "i < m + 4 \<Longrightarrow> y i = 0"
proof -
  have "(\<Sum>k<m + 2. (y k - 2 * y (k + 1) + y (k + 2))\<^sup>2) = 0"
    unfolding second_difference_energy [OF assms(1-4)] using st by simp
  then have "\<forall>k\<in>{..<m + 2}. (y k - 2 * y (k + 1) + y (k + 2))\<^sup>2 = 0"
    by (subst (asm) sum_nonneg_eq_0_iff) simp_all
  then have sq: "\<And>k. k < m + 2 \<Longrightarrow> (y k - 2 * y (k + 1) + y (k + 2))\<^sup>2 = 0"
    by blast
  have rec: "y (k + 2) = 2 * y (k + 1) - y k" if "k < m + 2" for k
    using sq [OF that] by simp
  have "k \<le> m + 2 \<Longrightarrow> y k = 0 \<and> y (k + 1) = 0" for k
  proof (induction k)
    case 0
    then show ?case using assms(1,2) by simp
  next
    case (Suc k)
    then have "y k = 0" "y (k + 1) = 0" "k < m + 2" by simp_all
    then show ?case using rec [of k] by simp
  qed
  then show "i < m + 4 \<Longrightarrow> y i = 0"
    by (cases i) (auto simp add: less_Suc_eq_le)
qed

lemma shoot_linear:
  "shoot \<alpha> \<beta> c k =
     \<alpha> * shoot 1 0 (\<lambda>_. 0) k + \<beta> * shoot 0 1 (\<lambda>_. 0) k + shoot 0 0 c k"
  by (induction \<alpha> \<beta> c k rule: shoot.induct) (simp_all add: algebra_simps)

lemma shoot_zero: "shoot 0 0 (\<lambda>_. 0) k = 0"
  by (induction "0::real" "0::real" "\<lambda>_::nat. 0::real" k rule: shoot.induct) simp_all

lemma shoot_stencil:
  "shoot \<alpha> \<beta> c k - 4 * shoot \<alpha> \<beta> c (k + 1) + 6 * shoot \<alpha> \<beta> c (k + 2) -
     4 * shoot \<alpha> \<beta> c (k + 3) + shoot \<alpha> \<beta> c (k + 4) = c k"
  by (simp add: eval_nat_numeral)

lemma kernel_2x2:
  fixes a b c d :: real
  assumes "a * d - b * c = 0"
  shows "\<exists>\<alpha> \<beta>. (\<alpha> \<noteq> 0 \<or> \<beta> \<noteq> 0) \<and> a * \<alpha> + b * \<beta> = 0 \<and> c * \<alpha> + d * \<beta> = 0"
proof (cases "a \<noteq> 0 \<or> b \<noteq> 0")
  case True
  have "a * b + b * (- a) = 0" "c * b + d * (- a) = 0"
    using assms by (simp_all add: algebra_simps)
  then show ?thesis using True by (intro exI [of _ b] exI [of _ "- a"]) auto
next
  case ab: False
  show ?thesis
  proof (cases "c \<noteq> 0 \<or> d \<noteq> 0")
    case True
    have "c * d + d * (- c) = 0" by simp
    then show ?thesis using True ab by (intro exI [of _ d] exI [of _ "- c"]) auto
  next
    case False
    then show ?thesis using ab by (intro exI [of _ 1] exI [of _ 0]) simp
  qed
qed

lemma shoot_determinant:
  "shoot 1 0 (\<lambda>_. 0) (m + 2) * shoot 0 1 (\<lambda>_. 0) (m + 3) -
   shoot 0 1 (\<lambda>_. 0) (m + 2) * shoot 1 0 (\<lambda>_. 0) (m + 3) \<noteq> 0"
proof
  let ?p = "shoot 1 0 (\<lambda>_. 0)" and ?q = "shoot 0 1 (\<lambda>_. 0)"
  assume "?p (m + 2) * ?q (m + 3) - ?q (m + 2) * ?p (m + 3) = 0"
  from kernel_2x2 [OF this]
  obtain \<alpha> \<beta> where ab: "\<alpha> \<noteq> 0 \<or> \<beta> \<noteq> 0"
    and e2: "?p (m + 2) * \<alpha> + ?q (m + 2) * \<beta> = 0"
    and e3: "?p (m + 3) * \<alpha> + ?q (m + 3) * \<beta> = 0"
    by blast
  let ?y = "shoot \<alpha> \<beta> (\<lambda>_. 0)"
  have y2: "?y (m + 2) = 0"
    using e2 by (subst shoot_linear) (simp add: shoot_zero mult.commute)
  have y3: "?y (m + 3) = 0"
    using e3 by (subst shoot_linear) (simp add: shoot_zero mult.commute)
  have y0: "?y 0 = 0" and y1: "?y 1 = 0" by simp_all
  have st: "?y k - 4 * ?y (k + 1) + 6 * ?y (k + 2) - 4 * ?y (k + 3) + ?y (k + 4) = 0" for k
    by (rule shoot_stencil)
  have z: "?y i = 0" if "i < m + 4" for i
    by (rule biharmonic_unique [of ?y m, OF y0 y1 y2 y3 st that])
  have "?y 2 = 0" "?y 3 = 0" by (rule z, simp)+
  then have "\<alpha> = 0" "\<beta> = 0" by (simp_all add: eval_nat_numeral)
  then show False using ab by simp
qed

lemma biharmonic_exists:
  fixes c :: "nat \<Rightarrow> real"
  shows "\<exists>y::nat \<Rightarrow> real. y 0 = 0 \<and> y 1 = 0 \<and> y (m + 2) = 0 \<and> y (m + 3) = (0::real) \<and>
       (\<forall>k. y k - 4 * y (k + 1) + 6 * y (k + 2) - 4 * y (k + 3) + y (k + 4) = c k)"
proof -
  let ?p = "shoot 1 0 (\<lambda>_. 0)" and ?q = "shoot 0 1 (\<lambda>_. 0)" and ?r = "shoot 0 0 c"
  define D where "D = ?p (m + 2) * ?q (m + 3) - ?q (m + 2) * ?p (m + 3)"
  have D: "D \<noteq> 0" unfolding D_def by (rule shoot_determinant)
  define \<alpha> where "\<alpha> = (?r (m + 3) * ?q (m + 2) - ?r (m + 2) * ?q (m + 3)) / D"
  define \<beta> where "\<beta> = (?p (m + 3) * ?r (m + 2) - ?p (m + 2) * ?r (m + 3)) / D"
  let ?y = "shoot \<alpha> \<beta> c"
  have "D * (\<alpha> * ?p (m + 2) + \<beta> * ?q (m + 2) + ?r (m + 2)) = 0"
    using D by (simp add: \<alpha>_def \<beta>_def field_simps) (simp add: D_def algebra_simps)
  then have y2: "?y (m + 2) = 0"
    using D by (subst shoot_linear) simp
  have "D * (\<alpha> * ?p (m + 3) + \<beta> * ?q (m + 3) + ?r (m + 3)) = 0"
    using D by (simp add: \<alpha>_def \<beta>_def field_simps) (simp add: D_def algebra_simps)
  then have y3: "?y (m + 3) = 0"
    using D by (subst shoot_linear) simp
  show ?thesis
    using y2 y3 shoot_stencil [of \<alpha> \<beta> c] by (intro exI [of _ ?y]) simp
qed

subsection \<open>The outcome of the central-difference solver\<close>

lemma length_cd_matrix [simp]: "length (cd_matrix n) = n"
  by (simp add: cd_matrix_def)

lemma mat_vec_cd_matrix_nth:
  "length v = n \<Longrightarrow> i < n \<Longrightarrow>
   mat_vec (cd_matrix n) v ! i =
     (if interior n i
      then v ! (i - 2) - 4 * v ! (i - 1) + 6 * v ! i - 4 * v ! (i + 1) + v ! (i + 2)
      else v ! i)"
  by (simp add: mat_vec_cd_matrix)

lemma length_mat_vec [simp]: "length (mat_vec A v) = length A"
  by (simp add: mat_vec_def)

lemma cd_kernel:
  assumes v: "length v = n" and z: "mat_vec (cd_matrix n) v = replicate n 0"
  shows "v = replicate n 0"
proof -
  have rows: "(if interior n i
                 then v ! (i - 2) - 4 * v ! (i - 1) + 6 * v ! i - 4 * v ! (i + 1) + v ! (i + 2)
                 else v ! i) = 0" if "i < n" for i
  proof -
    have "mat_vec (cd_matrix n) v ! i = replicate n 0 ! i" by (simp only: z)
    then show ?thesis using that by (simp only: mat_vec_cd_matrix_nth [OF v that] nth_replicate)
  qed
  have "v ! i = 0" if i: "i < n" for i
  proof (cases "4 \<le> n")
    case True
    define m where "m = n - 4"
    have n: "n = m + 4" using True by (simp add: m_def)
    let ?y = "\<lambda>i. v ! i"
    have y0: "?y 0 = 0" using rows [of 0] n by (simp add: interior_def)
    have y1: "?y 1 = 0" using rows [of 1] n by (simp add: interior_def)
    have y2: "?y (m + 2) = 0" using rows [of "m + 2"] n by (simp add: interior_def)
    have y3: "?y (m + 3) = 0" using rows [of "m + 3"] n by (simp add: interior_def)
    have st: "?y k - 4 * ?y (k + 1) + 6 * ?y (k + 2) - 4 * ?y (k + 3) + ?y (k + 4) = 0"
      if "k < m" for k
      using rows [of "k + 2"] that n by (simp add: interior_def eval_nat_numeral)
    show ?thesis
      using biharmonic_unique [of ?y m i, OF y0 y1 y2 y3 st] i n by simp
  next
    case False
    then have "\<not> interior n i" by (simp add: interior_def)
    then show ?thesis using rows [OF i] by simp
  qed
  then show ?thesis
    using v by (intro nth_equalityI) simp_all
qed

lemma cd_matrix_nonsingular: "\<not> singular (cd_matrix n)"
  unfolding singular_def using cd_kernel [of _ n] by auto

lemma cd_solution_exists:
  assumes b: "length b = n" and z: "\<And>i. i < n \<Longrightarrow> \<not> interior n i \<Longrightarrow> b ! i = 0"
  shows "\<exists>y. length y = n \<and> mat_vec (cd_matrix n) y = b"
proof (cases "4 \<le> n")
  case True
  define m where "m = n - 4"
  have n: "n = m + 4" using True by (simp add: m_def)
  obtain f :: "nat \<Rightarrow> real" where f: "f 0 = 0" "f 1 = 0" "f (m + 2) = 0" "f (m + 3) = 0"
    "\<And>k. f k - 4 * f (k + 1) + 6 * f (k + 2) - 4 * f (k + 3) + f (k + 4) = b ! (k + 2)"
    using biharmonic_exists [of m "\<lambda>k. b ! (k + 2)"] by blast
  let ?y = "map f [0..<n]"
  have "mat_vec (cd_matrix n) ?y = b"
  proof (rule nth_equalityI)
    show "length (mat_vec (cd_matrix n) ?y) = length b"
      using b by (simp add: mat_vec_def)
  next
    fix i assume "i < length (mat_vec (cd_matrix n) ?y)"
    then have i: "i < n" by (simp add: mat_vec_def)
    show "mat_vec (cd_matrix n) ?y ! i = b ! i"
    proof (cases "interior n i")
      case True
      then obtain k where k: "i = k + 2" "k + 4 < n"
        by (auto simp add: interior_def dest: le_Suc_ex)
      then show ?thesis
        using True i f(5) [of k] by (simp add: mat_vec_cd_matrix_nth eval_nat_numeral)
    next
      case False
      then have "i = 0 \<or> i = 1 \<or> i = m + 2 \<or> i = m + 3"
        using not_interior_iff [of n i] i n by auto
      then have "f i = 0" using f(1-4) by auto
      then show ?thesis using False i z [OF i False] by (simp add: mat_vec_cd_matrix_nth)
    qed
  qed
  then show ?thesis by (intro exI [of _ ?y]) simp
next
  case False
  then have ni: "\<And>i. \<not> interior n i" by (simp add: interior_def)
  have "mat_vec (cd_matrix n) b = b"
    using b by (intro nth_equalityI) (simp_all add: mat_vec_cd_matrix_nth ni)
  then show ?thesis using b by blast
qed

lemma cd_solution_unique:
  assumes "length y = n" and "length y' = n"
    and "mat_vec (cd_matrix n) y = b" and "mat_vec (cd_matrix n) y' = b"
  shows "y' = y"
proof -
  let ?d = "map (\<lambda>i. y' ! i - y ! i) [0..<n]"
  have e: "mat_vec (cd_matrix n) y' ! i = mat_vec (cd_matrix n) y ! i" for i
    by (simp only: assms(3,4))
  have d: "length ?d = n" by simp
  have "mat_vec (cd_matrix n) ?d = replicate n 0"
  proof (rule nth_equalityI)
    show "length (mat_vec (cd_matrix n) ?d) = length (replicate n (0::real))"
      by simp
  next
    fix i assume "i < length (mat_vec (cd_matrix n) ?d)"
    then have i: "i < n" by simp
    show "mat_vec (cd_matrix n) ?d ! i = replicate n 0 ! i"
    proof (cases "interior n i")
      case True
      then have k: "i - 2 < n" "i - 1 < n" "i + 1 < n" "i + 2 < n"
        by (auto simp add: interior_def)
      have "y' ! (i - 2) - 4 * y' ! (i - 1) + 6 * y' ! i - 4 * y' ! (i + 1) + y' ! (i + 2) =
            y ! (i - 2) - 4 * y ! (i - 1) + 6 * y ! i - 4 * y ! (i + 1) + y ! (i + 2)"
        using e [of i]
        by (simp only: mat_vec_cd_matrix_nth [OF assms(1) i] mat_vec_cd_matrix_nth [OF assms(2) i]
              True if_True)
      moreover have "mat_vec (cd_matrix n) ?d ! i =
          ?d ! (i - 2) - 4 * ?d ! (i - 1) + 6 * ?d ! i - 4 * ?d ! (i + 1) + ?d ! (i + 2)"
        by (simp only: mat_vec_cd_matrix_nth [OF d i] True if_True)
      moreover have "?d ! (i - 2) = y' ! (i - 2) - y ! (i - 2)"
        "?d ! (i - 1) = y' ! (i - 1) - y ! (i - 1)" "?d ! i = y' ! i - y ! i"
        "?d ! (i + 1) = y' ! (i + 1) - y ! (i + 1)" "?d ! (i + 2) = y' ! (i + 2) - y ! (i + 2)"
        using k i by simp_all
      ultimately have "mat_vec (cd_matrix n) ?d ! i = 0"
        by linarith
      then show ?thesis using i by simp
    next
      case False
      have "y' ! i = y ! i"
        using e [of i]
        by (simp only: mat_vec_cd_matrix_nth [OF assms(1) i] mat_vec_cd_matrix_nth [OF assms(2) i]
              False if_False)
      moreover have "mat_vec (cd_matrix n) ?d ! i = ?d ! i"
        by (simp only: mat_vec_cd_matrix_nth [OF d i] False if_False)
      ultimately show ?thesis using i by simp
    qed
  qed
  then have dz: "?d = replicate n 0" by (rule cd_kernel [OF d])
  have "y' ! i = y ! i" if "i < n" for i
  proof -
    have "?d ! i = 0" unfolding dz using that by simp
    moreover have "?d ! i = y' ! i - y ! i" using that by simp
    ultimately show ?thesis by simp
  qed
  then show ?thesis using assms(1,2) by (intro nth_equalityI) simp_all
qed

lemma cd_outcome:
  assumes n: "2 \<le> p_N p"
  shows "\<exists>y. length y = p_N p \<and> mat_vec (cd_matrix (p_N p)) y = cd_vector p \<and>
           (\<forall>r. beam_deflection_central_difference p r \<longleftrightarrow>
                r = Inr (np_linspace 0 (p_L p) (p_N p), y))"
proof -
  let ?n = "p_N p" and ?A = "cd_matrix (p_N p)" and ?b = "cd_vector p"
  have "\<exists>y. length y = ?n \<and> mat_vec ?A y = ?b"
    by (rule cd_solution_exists) (simp_all add: cd_vector_def)
  then obtain y where y: "length y = ?n" "mat_vec ?A y = ?b" by blast
  have solve: "linalg_solve ?A ?b s \<longleftrightarrow> s = Inr y" for s
  proof
    assume "linalg_solve ?A ?b s"
    then obtain y' where y': "s = Inr y'" "length y' = ?n" "mat_vec ?A y' = ?b"
      unfolding linalg_solve_def using cd_matrix_nonsingular [of ?n] by auto
    then show "s = Inr y"
      using cd_solution_unique [OF y(1) y'(2) y(2) y'(3)] by simp
  next
    assume "s = Inr y"
    then show "linalg_solve ?A ?b s"
      unfolding linalg_solve_def using cd_matrix_nonsingular [of ?n] y by simp
  qed
  have "beam_deflection_central_difference p r \<longleftrightarrow> r = Inr (np_linspace 0 (p_L p) ?n, y)" for r
    unfolding beam_deflection_central_difference_def cd_system_eq [OF n]
    by (simp add: solve)
  then show ?thesis using y by blast
qed

subsection \<open>The outcome of the Runge-Kutta solver\<close>

lemma rk4_loop_total:
  "\<exists>ys. rk4_loop p xs [y1, y2, y3, y4] = Inr ys \<and> length ys = length xs \<and>
        (xs \<noteq> [] \<longrightarrow> hd ys = y1)"
proof (induction xs arbitrary: y1 y2 y3 y4)
  case Nil
  then show ?case by simp
next
  case (Cons x xs)
  obtain z1 z2 z3 z4 where z: "rk4_step (system_of_odes p) x [y1, y2, y3, y4] (p_dx p) = Inr [z1, z2, z3, z4]"
    using rk4_step_odes by blast
  obtain ys where ys: "rk4_loop p xs [z1, z2, z3, z4] = Inr ys" "length ys = length xs"
    using Cons.IH [of z1 z2 z3 z4] by blast
  have "rk4_loop p (x # xs) [y1, y2, y3, y4] = Inr (y1 # ys)"
    by (simp only: rk4_loop.simps np_first.simps bind_Inr z ys(1))
  then show ?case using ys(2) by simp
qed

lemma np_arange_rk4:
  "p_dx p \<noteq> 0 \<Longrightarrow> np_arange 0 (p_L p + p_dx p) (p_dx p) = Inr (rk4_grid p)"
  by (simp add: np_arange_def rk4_grid_def rk4_count_def)

lemma beam_deflection_rk4_total:
  assumes "p_dx p \<noteq> 0"
  shows "\<exists>ys. beam_deflection_rk4 p = Inr (rk4_grid p, ys) \<and> length ys = rk4_count p \<and>
           (ys \<noteq> [] \<longrightarrow> hd ys = 0)"
proof -
  obtain ys where ys: "rk4_loop p (rk4_grid p) [0, 0, 0, 0] = Inr ys"
    "length ys = length (rk4_grid p)" "rk4_grid p \<noteq> [] \<longrightarrow> hd ys = 0"
    using rk4_loop_total [of p "rk4_grid p" 0 0 0 0] by blast
  have "beam_deflection_rk4 p = Inr (rk4_grid p, ys)"
    unfolding beam_deflection_rk4_def
    by (simp only: np_arange_rk4 [OF assms] ys(1) bind_Inr)
  moreover have "length ys = rk4_count p"
    using ys(2) by (simp add: rk4_grid_def)
  moreover have "ys \<noteq> [] \<longrightarrow> hd ys = 0"
    using ys(2,3) by auto
  ultimately show ?thesis by blast
qed

lemma rk4_count_ge2:
  assumes "0 < p_L p" and "0 < p_dx p"
  shows "2 \<le> rk4_count p"
proof -
  have "1 < (p_L p + p_dx p) / p_dx p"
    using assms by (simp add: field_simps)
  then have "1 < \<lceil>(p_L p + p_dx p) / p_dx p\<rceil>"
    by (simp add: less_ceiling_iff)
  then show ?thesis unfolding rk4_count_def by linarith
qed

lemma beam_deflection_rk4_zero_load:
  assumes "p_dx p \<noteq> 0" and "p_P p = 0"
  shows "beam_deflection_rk4 p = Inr (rk4_grid p, replicate (rk4_count p) 0)"
  unfolding beam_deflection_rk4_def
  by (simp add: np_arange_rk4 [OF assms(1)] rk4_loop_zero [OF assms(2)] rk4_grid_def)

lemma beam_deflection_rk4_increasing:
  assumes "0 < p_P p" and "0 < p_EI p" and "0 < p_spread p" and "0 < p_dx p"
  shows "\<exists>ys. beam_deflection_rk4 p = Inr (rk4_grid p, ys) \<and> length ys = rk4_count p \<and>
           sorted_wrt (<) ys \<and> (\<forall>y\<in>set ys. 0 \<le> y)"
proof -
  obtain ys where ys: "rk4_loop p (rk4_grid p) [0, 0, 0, 0] = Inr ys"
    "length ys = length (rk4_grid p)" "sorted_wrt (<) ys" "\<forall>y\<in>set ys. 0 \<le> y"
    using rk4_loop_increasing [OF assms, of 0 0 0 0 "rk4_grid p"] by auto
  have dx: "p_dx p \<noteq> 0" using assms(4) by simp
  have "beam_deflection_rk4 p = Inr (rk4_grid p, ys)"
    unfolding beam_deflection_rk4_def
    by (simp only: np_arange_rk4 [OF dx] ys(1) bind_Inr)
  then show ?thesis using ys(2,3,4) by (auto simp add: rk4_grid_def)
qed

lemma rk4_grid_sorted: "0 < p_dx p \<Longrightarrow> sorted_wrt (<) (rk4_grid p)"
  by (simp add: rk4_grid_def sorted_wrt_map sorted_wrt_iff_nth_less)

section \<open>The claims about the two solvers\<close>

lemma cd_vector_zero_load:
  assumes "p_P p = 0"
  shows "cd_vector p = replicate (p_N p) 0"
proof -
  have "cd_rhs p i = 0" for i
    using assms by (simp add: cd_rhs_def gaussian_load_def)
  then show ?thesis
    by (simp add: cd_vector_def map_replicate_const cong: if_cong)
qed

lemma ridwan_fields:
  "p_L ridwan_params = 10" "p_EI ridwan_params = 1666600" "p_P ridwan_params = 1000"
  "p_a ridwan_params = 5" "p_spread ridwan_params = 1 / 20" "p_dx ridwan_params = 1 / 10"
  "p_N ridwan_params = 101"
  by (simp_all add: ridwan_params_def)

lemma cd_zero_load:
  assumes "2 \<le> p_N p" and "cd_vector p = replicate (p_N p) 0"
  shows "beam_deflection_central_difference p r \<longleftrightarrow>
           r = Inr (np_linspace 0 (p_L p) (p_N p), replicate (p_N p) 0)"
proof -
  obtain y where y: "length y = p_N p" "mat_vec (cd_matrix (p_N p)) y = cd_vector p"
    "\<And>r. beam_deflection_central_difference p r \<longleftrightarrow>
          r = Inr (np_linspace 0 (p_L p) (p_N p), y)"
    using cd_outcome [OF assms(1)] by blast
  have "mat_vec (cd_matrix (p_N p)) y = replicate (p_N p) 0"
    using y(2) assms(2) by simp
  then have "y = replicate (p_N p) 0"
    by (rule cd_kernel [OF y(1)])
  then show ?thesis using y(3) by simp
qed

lemma rk4_count_ridwan:
  assumes "p_L p = 10" and "p_dx p = 1 / 10"
  shows "rk4_count p = 101"
proof -
  have h: "(p_L p + p_dx p) / p_dx p = 101"
    by (simp add: assms)
  show ?thesis unfolding rk4_count_def h by simp
qed

lemma unit_row_nth:
  "i < n \<Longrightarrow> j < n \<Longrightarrow> unit_row n i ! j = (if j = i then 1 else 0)"
  by (simp add: unit_row_def nth_list_update)

lemma stencil_row_nth:
  assumes "interior n i" and "j < n"
  shows "stencil_row n i ! j =
           (if j = i + 2 then 1 else if j = i + 1 then - 4 else if j = i then 6
            else if j = i - 1 then - 4 else if j = i - 2 then 1 else 0)"
proof -
  have i: "2 \<le> i" "i + 2 < n" using assms(1) by (simp_all add: interior_def)
  then show ?thesis
    using assms(2) by (simp add: stencil_row_def nth_list_update)
qed

lemma cd_matrix_nth:
  "i < n \<Longrightarrow> cd_matrix n ! i = (if interior n i then stencil_row n i else unit_row n i)"
  by (simp add: cd_matrix_def)

lemma length_stencil_row [simp]: "length (stencil_row n i) = n"
  by (simp add: stencil_row_def)

lemma length_unit_row [simp]: "length (unit_row n i) = n"
  by (simp add: unit_row_def)

lemma stencil_row_support:
  assumes "interior n i"
  shows "{j. j < n \<and> stencil_row n i ! j \<noteq> 0} = {i - 2, i - 1, i, i + 1, i + 2}"
proof -
  have i: "2 \<le> i" "i + 2 < n" using assms by (simp_all add: interior_def)
  show ?thesis
  proof (rule set_eqI)
    fix j
    show "j \<in> {j. j < n \<and> stencil_row n i ! j \<noteq> 0} \<longleftrightarrow> j \<in> {i - 2, i - 1, i, i + 1, i + 2}"
    proof (cases "j < n")
      case True
      then show ?thesis
        using i by (simp add: stencil_row_nth [OF assms True])
    next
      case False
      then show ?thesis using i by auto
    qed
  qed
qed

lemma stencil_row_card:
  assumes "interior n i"
  shows "card {j. j < n \<and> stencil_row n i ! j \<noteq> 0} = 5"
proof -
  have i: "2 \<le> i" using assms by (simp add: interior_def)
  then obtain k where k: "i = k + 2" by (auto dest: le_Suc_ex)
  have "card {i - 2, i - 1, i, i + 1, i + 2} = 5"
    unfolding k by simp
  then show ?thesis
    by (simp only: stencil_row_support [OF assms])
qed

lemma dot_ones: "dot u (replicate (length u) 1) = sum_list u"
  by (induction u) (simp_all add: dot_def)

lemma stencil_row_sum:
  assumes "interior n i"
  shows "sum_list (stencil_row n i) = 0"
proof -
  have i: "2 \<le> i" "i + 2 < n" using assms by (simp_all add: interior_def)
  have "sum_list (stencil_row n i) = dot (stencil_row n i) (replicate n 1)"
    using dot_ones [of "stencil_row n i"] by simp
  also have "\<dots> = 0"
    using i by (simp add: dot_stencil_row [OF assms])
  finally show ?thesis .
qed

lemma cd_boundary_zero:
  assumes n: "2 \<le> p_N p" and r: "beam_deflection_central_difference p r"
  shows "\<exists>ys. r = Inr (np_linspace 0 (p_L p) (p_N p), ys) \<and> length ys = p_N p \<and>
           (\<forall>i<p_N p. \<not> interior (p_N p) i \<longrightarrow> ys ! i = 0)"
proof -
  obtain y where y: "length y = p_N p" "mat_vec (cd_matrix (p_N p)) y = cd_vector p"
    "\<And>r. beam_deflection_central_difference p r \<longleftrightarrow>
          r = Inr (np_linspace 0 (p_L p) (p_N p), y)"
    using cd_outcome [OF n] by blast
  have "y ! i = 0" if "i < p_N p" "\<not> interior (p_N p) i" for i
  proof -
    have "mat_vec (cd_matrix (p_N p)) y ! i = cd_vector p ! i"
      by (simp only: y(2))
    then show ?thesis
      using that by (simp add: mat_vec_cd_matrix_nth [OF y(1)] cd_vector_def)
  qed
  then show ?thesis using y(1) y(3) r by blast
qed


lemma np_linspace_nth:
  "2 \<le> n \<Longrightarrow> i < n \<Longrightarrow> np_linspace 0 l n ! i = real i * (l / (real n - 1))"
  by (simp add: np_linspace_ge2 of_nat_diff)

lemma cd_vector_nth_interior:
  assumes "2 \<le> p_N p" and "i < p_N p" and "interior (p_N p) i"
  shows "cd_vector p ! i =
           gaussian_load (p_P p) (np_linspace 0 (p_L p) (p_N p) ! i) (p_a p) (1 / 10) *
             (p_L p / (real (p_N p) - 1)) ^ 4 / p_EI p"
  using assms by (simp add: cd_vector_def cd_rhs_def np_linspace_nth of_nat_diff)

text \<open>
  C2. For \<open>N \<ge> 5\<close> the assembly yields the grid \<open>x i = i dx\<close> with
  \<open>dx = L / (N - 1)\<close>, a matrix \<open>A\<close> and a vector \<open>b\<close> of size \<open>N\<close> such
  that every interior row \<open>2 \<le> i \<le> N - 3\<close> carries \<open>1, -4, 6, -4, 1\<close> at the columns
  \<open>i - 2 .. i + 2\<close> and zero elsewhere, with \<open>b i = w(x i) dx^4 / EI\<close>, the load being
  sampled with spread \<open>0.1\<close>; and the rows \<open>0, 1, N - 2, N - 1\<close> are rows of the
  identity, with the entry of \<open>b\<close> zero.
\<close>

theorem cd_system_assembly:
  assumes "5 \<le> p_N p"
  shows "\<exists>x_vals A b. cd_system p = Inr (x_vals, A, b) \<and>
           length x_vals = p_N p \<and> length A = p_N p \<and> length b = p_N p \<and>
           (\<forall>i<p_N p. length (A ! i) = p_N p \<and>
                x_vals ! i = real i * (p_L p / (real (p_N p) - 1))) \<and>
           (\<forall>i. 2 \<le> i \<and> i \<le> p_N p - 3 \<longrightarrow>
                A ! i ! (i - 2) = 1 \<and> A ! i ! (i - 1) = - 4 \<and> A ! i ! i = 6 \<and>
                A ! i ! (i + 1) = - 4 \<and> A ! i ! (i + 2) = 1 \<and>
                (\<forall>j<p_N p. j < i - 2 \<or> i + 2 < j \<longrightarrow> A ! i ! j = 0) \<and>
                b ! i = gaussian_load (p_P p) (x_vals ! i) (p_a p) (1 / 10) *
                          (p_L p / (real (p_N p) - 1)) ^ 4 / p_EI p) \<and>
           (\<forall>i\<in>{0, 1, p_N p - 2, p_N p - 1}.
                b ! i = 0 \<and> (\<forall>j<p_N p. A ! i ! j = (if j = i then 1 else 0)))"
proof -
  let ?n = "p_N p"
  let ?x = "np_linspace 0 (p_L p) ?n" and ?A = "cd_matrix ?n" and ?b = "cd_vector p"
  have n: "2 \<le> ?n" using assms by simp
  have sys: "cd_system p = Inr (?x, ?A, ?b)" by (rule cd_system_eq [OF n])
  have len: "length ?x = ?n" "length ?A = ?n" "length ?b = ?n"
    using n by (simp_all add: np_linspace_ge2 cd_vector_def)
  have grid: "length (?A ! i) = ?n \<and> ?x ! i = real i * (p_L p / (real ?n - 1))"
    if "i < ?n" for i
    using that n by (simp add: cd_matrix_nth np_linspace_nth)
  have inner: "?A ! i ! (i - 2) = 1 \<and> ?A ! i ! (i - 1) = - 4 \<and> ?A ! i ! i = 6 \<and>
                ?A ! i ! (i + 1) = - 4 \<and> ?A ! i ! (i + 2) = 1 \<and>
                (\<forall>j<?n. j < i - 2 \<or> i + 2 < j \<longrightarrow> ?A ! i ! j = 0) \<and>
                ?b ! i = gaussian_load (p_P p) (?x ! i) (p_a p) (1 / 10) *
                          (p_L p / (real ?n - 1)) ^ 4 / p_EI p"
    if "2 \<le> i \<and> i \<le> ?n - 3" for i
  proof -
    have int: "interior ?n i" using that assms by (auto simp add: interior_def)
    have i: "2 \<le> i" "i + 2 < ?n" "i < ?n" using int by (simp_all add: interior_def)
    have row: "?A ! i = stencil_row ?n i" using int i(3) by (simp add: cd_matrix_nth)
    have "stencil_row ?n i ! (i - 2) = 1" "stencil_row ?n i ! (i - 1) = - 4"
      "stencil_row ?n i ! i = 6" "stencil_row ?n i ! (i + 1) = - 4"
      "stencil_row ?n i ! (i + 2) = 1"
      using i by (auto simp add: stencil_row_nth [OF int])
    moreover have "\<forall>j<?n. j < i - 2 \<or> i + 2 < j \<longrightarrow> stencil_row ?n i ! j = 0"
      using i by (auto simp add: stencil_row_nth [OF int])
    ultimately show ?thesis
      unfolding row using cd_vector_nth_interior [OF n i(3) int] by blast
  qed
  have outer: "?b ! i = 0 \<and> (\<forall>j<?n. ?A ! i ! j = (if j = i then 1 else 0))"
    if "i \<in> {0, 1, ?n - 2, ?n - 1}" for i
  proof -
    have i: "i < ?n" "\<not> interior ?n i"
      using that assms by (auto simp add: interior_def)
    then show ?thesis
      by (simp add: cd_matrix_nth cd_vector_def unit_row_nth)
  qed
  show ?thesis
    using sys len grid inner outer by blast
qed

theorem cd_system_assembly_witness:
  "5 \<le> p_N ridwan_params \<and>
   (\<exists>x_vals A b. cd_system ridwan_params = Inr (x_vals, A, b) \<and>
      x_vals ! 50 = 5 \<and> A ! 50 ! 48 = 1 \<and> A ! 50 ! 49 = - 4 \<and> A ! 50 ! 50 = 6 \<and>
      A ! 50 ! 51 = - 4 \<and> A ! 50 ! 52 = 1 \<and> A ! 50 ! 53 = 0 \<and> A ! 0 ! 0 = 1 \<and>
      A ! 0 ! 1 = 0 \<and> b ! 0 = 0 \<and>
      b ! 50 = gaussian_load 1000 5 5 (1 / 10) * (1 / 10) ^ 4 / 1666600)"
proof -
  have h: "5 \<le> p_N ridwan_params" by (simp add: ridwan_fields)
  obtain x_vals A b where sys: "cd_system ridwan_params = Inr (x_vals, A, b)"
    and grid: "\<forall>i<101. x_vals ! i = real i * (10 / (real (101::nat) - 1))"
    and inner: "\<forall>i. 2 \<le> i \<and> i \<le> 101 - 3 \<longrightarrow>
                A ! i ! (i - 2) = 1 \<and> A ! i ! (i - 1) = - 4 \<and> A ! i ! i = 6 \<and>
                A ! i ! (i + 1) = - 4 \<and> A ! i ! (i + 2) = 1 \<and>
                (\<forall>j<101. j < i - 2 \<or> i + 2 < j \<longrightarrow> A ! i ! j = 0) \<and>
                b ! i = gaussian_load 1000 (x_vals ! i) 5 (1 / 10) *
                          (10 / (real (101::nat) - 1)) ^ 4 / 1666600"
    and outer: "\<forall>i\<in>{0, 1, 101 - 2, 101 - 1}.
                b ! i = 0 \<and> (\<forall>j<101. A ! i ! j = (if j = i then 1 else (0::real)))"
    using cd_system_assembly [OF h] unfolding ridwan_fields by blast
  have "x_vals ! 50 = real 50 * (10 / (real (101::nat) - 1))"
    using grid by (elim allE [of _ 50]) (simp del: of_nat_numeral)
  then have x50: "x_vals ! 50 = 5" by simp
  have r50: "A ! 50 ! (50 - 2) = 1 \<and> A ! 50 ! (50 - 1) = - 4 \<and> A ! 50 ! 50 = 6 \<and>
                A ! 50 ! (50 + 1) = - 4 \<and> A ! 50 ! (50 + 2) = 1 \<and>
                (\<forall>j<101. j < 50 - 2 \<or> 50 + 2 < j \<longrightarrow> A ! 50 ! j = 0) \<and>
                b ! 50 = gaussian_load 1000 (x_vals ! 50) 5 (1 / 10) *
                          (10 / (real (101::nat) - 1)) ^ 4 / 1666600"
    using inner by (elim allE [of _ 50]) simp
  have r0: "b ! 0 = 0 \<and> (\<forall>j<101. A ! 0 ! j = (if j = 0 then 1 else (0::real)))"
    using outer by simp
  have "A ! 50 ! 53 = 0" using r50 by simp
  moreover have "A ! 0 ! 0 = 1" "A ! 0 ! 1 = 0" using r0 by simp_all
  moreover have "b ! 50 = gaussian_load 1000 5 5 (1 / 10) * (1 / 10) ^ 4 / 1666600"
    using r50 x50 by simp
  ultimately show ?thesis
    using h sys x50 r50 r0 by (intro conjI exI [of _ x_vals] exI [of _ A] exI [of _ b]) simp_all
qed

text \<open>
  The script's system in exact arithmetic (\<open>N = 101\<close>, the load sampled with spread
  \<open>0.1\<close>): every interior row of the assembled matrix has exactly five entries that
  are not zero, and they sum to zero; the exact solution exists and has
  \<open>y[0] = y[1] = y[99] = y[100] = 0\<close>. The rows and the right-hand side are the ones the
  code builds; of the values \<open>np.linalg.solve\<close> returns in float64, \<open>y[1]\<close> is
  a rounding residue of the factorisation, which pivots on the stencil row in column 1,
  and is not exactly zero.
\<close>

lemma ridwan_linear_system_exact:
  "(\<exists>x_vals A b. cd_system ridwan_params = Inr (x_vals, A, b) \<and> length A = 101 \<and>
      (\<forall>i. 2 \<le> i \<and> i \<le> 98 \<longrightarrow>
           card {j. j < 101 \<and> A ! i ! j \<noteq> 0} = 5 \<and> sum_list (A ! i) = 0)) \<and>
   (\<exists>r. beam_deflection_central_difference ridwan_params r) \<and>
   (\<forall>r. beam_deflection_central_difference ridwan_params r \<longrightarrow>
        (\<exists>xs ys. r = Inr (xs, ys) \<and> length ys = 101 \<and>
           ys ! 0 = 0 \<and> ys ! 1 = 0 \<and> ys ! 99 = 0 \<and> ys ! 100 = 0))"
proof -
  have N: "p_N ridwan_params = 101" by (rule ridwan_fields)
  have n: "2 \<le> p_N ridwan_params" by (simp add: N)
  have sys: "cd_system ridwan_params =
      Inr (np_linspace 0 (p_L ridwan_params) 101, cd_matrix 101, cd_vector ridwan_params)"
    using cd_system_eq [OF n] by (simp only: N)
  have rows: "card {j. j < 101 \<and> cd_matrix 101 ! i ! j \<noteq> 0} = 5 \<and>
      sum_list (cd_matrix 101 ! i) = 0" if "2 \<le> i \<and> i \<le> 98" for i
  proof -
    have int: "interior 101 i" using that by (simp add: interior_def)
    have i: "i < 101" using that by simp
    have row: "cd_matrix 101 ! i = stencil_row 101 i"
      by (simp only: cd_matrix_nth [OF i] int if_True)
    show ?thesis
      unfolding row using stencil_row_card [OF int] stencil_row_sum [OF int] by (rule conjI)
  qed
  have ex: "\<exists>r. beam_deflection_central_difference ridwan_params r"
    using cd_outcome [OF n] by blast
  have out: "\<exists>xs ys. r = Inr (xs, ys) \<and> length ys = 101 \<and>
           ys ! 0 = 0 \<and> ys ! 1 = 0 \<and> ys ! 99 = 0 \<and> ys ! 100 = 0"
    if r: "beam_deflection_central_difference ridwan_params r" for r
  proof -
    obtain ys where ys: "r = Inr (np_linspace 0 (p_L ridwan_params) 101, ys)"
      "length ys = 101" "\<forall>i<101. \<not> interior 101 i \<longrightarrow> ys ! i = 0"
      using cd_boundary_zero [OF n r] unfolding N by blast
    have b: "\<not> interior 101 0" "\<not> interior 101 1" "\<not> interior 101 99" "\<not> interior 101 100"
      by (simp_all add: interior_def)
    have "ys ! 0 = 0" "ys ! 1 = 0" "ys ! 99 = 0" "ys ! 100 = 0"
      using ys(3) b by auto
    then show ?thesis using ys(1,2) by blast
  qed
  have "\<exists>x_vals A b. cd_system ridwan_params = Inr (x_vals, A, b) \<and> length A = 101 \<and>
      (\<forall>i. 2 \<le> i \<and> i \<le> 98 \<longrightarrow>
           card {j. j < 101 \<and> A ! i ! j \<noteq> 0} = 5 \<and> sum_list (A ! i) = 0)"
    using sys rows length_cd_matrix [of 101] by blast
  then show ?thesis
    using ex out by blast
qed

lemma no_interior_small: "n < 5 \<Longrightarrow> \<not> interior n i"
  by (simp add: interior_def)

lemma cd_small_grid:
  assumes "p_N p < 5"
  shows "beam_deflection_central_difference p r \<longleftrightarrow>
           r = (if p_N p = 0 then Inl IndexError
                else if p_N p = 1 then Inl ZeroDivisionError
                else Inr (np_linspace 0 (p_L p) (p_N p), replicate (p_N p) 0))"
proof (cases "2 \<le> p_N p")
  case True
  have "cd_vector p = replicate (p_N p) 0"
    by (simp add: cd_vector_def no_interior_small [OF assms] map_replicate_const)
  then show ?thesis
    using cd_zero_load [OF True] True by simp
next
  case False
  then have "p_N p = 0 \<or> p_N p = 1" by auto
  then show ?thesis
    by (auto simp add: beam_deflection_central_difference_def cd_system_0 cd_system_1)
qed

text \<open>
  C6, amended. For a grid of fewer than five points the solver never raises
  LinAlgError: with \<open>N = 2, 3, 4\<close> every row of the matrix is a row of the identity
  and the outcome is the grid with deflections all zero; with \<open>N = 1\<close> the division
  \<open>L / (N - 1)\<close> raises ZeroDivisionError, and with \<open>N = 0\<close> the assignment
  \<open>A[0, 0] = 1\<close> raises IndexError.
\<close>

theorem small_grid_outcome:
  assumes "p_N p < 5"
  shows "(beam_deflection_central_difference p r \<longleftrightarrow>
            r = (if p_N p = 0 then Inl IndexError
                 else if p_N p = 1 then Inl ZeroDivisionError
                 else Inr (np_linspace 0 (p_L p) (p_N p), replicate (p_N p) 0))) \<and>
         \<not> beam_deflection_central_difference p (Inl LinAlgError)"
  using cd_small_grid [OF assms] by auto

theorem small_grid_outcome_witness:
  "p_N (ridwan_params\<lparr>p_N := 3\<rparr>) < 5 \<and>
   beam_deflection_central_difference (ridwan_params\<lparr>p_N := 3\<rparr>) (Inr ([0, 5, 10], [0, 0, 0])) \<and>
   \<not> beam_deflection_central_difference (ridwan_params\<lparr>p_N := 3\<rparr>) (Inl LinAlgError)"
proof -
  let ?p = "ridwan_params\<lparr>p_N := 3\<rparr>"
  have h: "p_N ?p < 5" by simp
  have f: "p_N ?p = 3" "p_L ?p = 10" by (simp_all add: ridwan_fields)
  have g: "np_linspace 0 10 3 = [0, 5, 10]"
    by (simp add: np_linspace_def upt_rec)
  have z: "replicate 3 (0::real) = [0, 0, 0]"
    by (simp add: eval_nat_numeral)
  show ?thesis
    using small_grid_outcome [OF h, of "Inr ([0, 5, 10], [0, 0, 0])"] h
    by (simp add: f g z)
qed

theorem small_grid_counterexample:
  "beam_deflection_central_difference (ridwan_params\<lparr>p_N := 4\<rparr>)
     (Inr ([0, 10 / 3, 20 / 3, 10], [0, 0, 0, 0])) \<and>
   \<not> beam_deflection_central_difference (ridwan_params\<lparr>p_N := 4\<rparr>) (Inl LinAlgError)"
proof -
  let ?p = "ridwan_params\<lparr>p_N := 4\<rparr>"
  have h: "p_N ?p < 5" by simp
  have f: "p_N ?p = 4" "p_L ?p = 10" by (simp_all add: ridwan_fields)
  have g: "np_linspace 0 10 4 = [0, 10 / 3, 20 / 3, 10]"
    by (simp add: np_linspace_def upt_rec)
  have z: "replicate 4 (0::real) = [0, 0, 0, 0]"
    by (simp add: eval_nat_numeral)
  show ?thesis
    using cd_small_grid [OF h] by (simp add: f g z)
qed

lemma rk4_one_step:
  assumes "p_L p = 1" and "p_dx p = 1"
  shows "beam_deflection_rk4 p = Inr ([0, 1], [0, load_at p 0 / 24])"
proof -
  have h: "(p_L p + p_dx p) / p_dx p = 2" by (simp add: assms)
  have c: "rk4_count p = 2" unfolding rk4_count_def h by simp
  have g: "rk4_grid p = [0, 1]"
    unfolding rk4_grid_def c by (simp add: assms upt_rec)
  have dx: "p_dx p \<noteq> 0" by (simp add: assms)
  have "rk4_loop p [0, 1] [0, 0, 0, 0] = Inr [0, load_at p 0 / 24]"
    by (simp add: rk4_step_odes assms)
  then show ?thesis
    unfolding beam_deflection_rk4_def
    by (simp only: np_arange_rk4 [OF dx] g bind_Inr)
qed

lemma sqrt_two_pi_less_3: "sqrt (2 * pi) < 3"
proof -
  have "2 * pi < 3\<^sup>2" using pi_less_4 by simp
  then show ?thesis by (intro real_less_lsqrt) simp_all
qed

lemma load_at_short_beam: "load_at (short_beam\<lparr>p_spread := s\<rparr>) 0 = 72 / (s * sqrt (2 * pi))"
  by (simp add: load_at_def gaussian_load_def short_beam_def)

lemma rk4_short_beam:
  "beam_deflection_rk4 (short_beam\<lparr>p_spread := s\<rparr>) = Inr ([0, 1], [0, 3 / (s * sqrt (2 * pi))])"
proof -
  have "beam_deflection_rk4 (short_beam\<lparr>p_spread := s\<rparr>) =
          Inr ([0, 1], [0, load_at (short_beam\<lparr>p_spread := s\<rparr>) 0 / 24])"
    by (rule rk4_one_step) (simp_all add: short_beam_def)
  then show ?thesis by (simp add: load_at_short_beam)
qed


lemma cd_system_spread: "cd_system (p\<lparr>p_spread := s\<rparr>) = cd_system p"
  by (simp add: cd_system_def Let_def cong: if_cong)

lemma cd_spread:
  "beam_deflection_central_difference (p\<lparr>p_spread := s\<rparr>) r \<longleftrightarrow>
   beam_deflection_central_difference p r"
  by (simp only: beam_deflection_central_difference_def cd_system_spread)



lemma cd_end_points:
  assumes n: "2 \<le> p_N p" and r: "beam_deflection_central_difference p r"
  shows "\<exists>xs ys. r = Inr (xs, ys) \<and> length xs = p_N p \<and> length ys = p_N p \<and>
           xs ! 0 = 0 \<and> xs ! (p_N p - 1) = p_L p \<and> ys ! 0 = 0 \<and> ys ! (p_N p - 1) = 0"
proof -
  let ?xs = "np_linspace 0 (p_L p) (p_N p)"
  obtain ys where ys: "r = Inr (?xs, ys)" "length ys = p_N p"
    "\<forall>i<p_N p. \<not> interior (p_N p) i \<longrightarrow> ys ! i = 0"
    using cd_boundary_zero [OF n r] by blast
  have b: "\<not> interior (p_N p) 0" "\<not> interior (p_N p) (p_N p - 1)"
    by (simp_all add: interior_def)
  have "ys ! 0 = 0" "ys ! (p_N p - 1) = 0"
    using ys(3) b n by auto
  moreover have "length ?xs = p_N p" "?xs ! 0 = 0"
    using n by (simp_all add: np_linspace_ge2)
  moreover have "?xs ! (p_N p - 1) = p_L p"
    using n by (simp add: np_linspace_nth of_nat_diff)
  ultimately show ?thesis using ys(1,2) by blast
qed

lemma rk4_start_point:
  assumes "0 < p_L p" and "0 < p_dx p"
  shows "\<exists>xs ys. beam_deflection_rk4 p = Inr (xs, ys) \<and> length ys = length xs \<and>
           2 \<le> length xs \<and> xs ! 0 = 0 \<and> ys ! 0 = 0"
proof -
  have dx: "p_dx p \<noteq> 0" using assms(2) by simp
  obtain ys where ys: "beam_deflection_rk4 p = Inr (rk4_grid p, ys)" "length ys = rk4_count p"
    "ys \<noteq> [] \<longrightarrow> hd ys = 0"
    using beam_deflection_rk4_total [OF dx] by blast
  have c: "2 \<le> rk4_count p" by (rule rk4_count_ge2 [OF assms])
  have l: "length (rk4_grid p) = rk4_count p" by (simp add: rk4_grid_def)
  have "ys \<noteq> []" using ys(2) c by auto
  then have "ys ! 0 = 0" using ys(3) by (simp add: hd_conv_nth)
  moreover have "rk4_grid p ! 0 = 0" using c by (simp add: rk4_grid_def)
  ultimately show ?thesis using ys(1,2) c l by auto
qed




lemma rk4_end_deflection_unbounded:
  "\<exists>p ys. valid_params p \<and> beam_deflection_rk4 p = Inr ([0, p_L p], ys) \<and> tol < \<bar>ys ! 1\<bar>"
proof -
  define c where "c = \<bar>tol\<bar> + 1"
  let ?p = "short_beam\<lparr>p_P := 72 * c\<rparr>"
  have cpos: "0 < c" by (simp add: c_def)
  have v: "valid_params ?p" by (simp add: valid_params_def short_beam_def)
  have l: "load_at ?p 0 = 72 * c / sqrt (2 * pi)"
    by (simp add: load_at_def gaussian_load_def short_beam_def)
  have run: "beam_deflection_rk4 ?p = Inr ([0, 1], [0, load_at ?p 0 / 24])"
    by (rule rk4_one_step) (simp_all add: short_beam_def)
  have "c < 3 * c / sqrt (2 * pi)"
    using sqrt_two_pi_less_3 cpos by (simp add: field_simps)
  moreover have "load_at ?p 0 / 24 = 3 * c / sqrt (2 * pi)"
    unfolding l by simp
  moreover have "tol < c" by (simp add: c_def)
  ultimately have "tol < \<bar>load_at ?p 0 / 24\<bar>"
    by linarith
  then have "tol < \<bar>[0, load_at ?p 0 / 24] ! 1\<bar>"
    by simp
  moreover have "p_L ?p = 1" by (simp add: short_beam_def)
  ultimately show ?thesis
    using v run by (intro exI [of _ ?p] exI [of _ "[0, load_at ?p 0 / 24]"]) simp
qed

text \<open>
  C9. The central-difference solver does not read the configured spread: a run with
  another value of it has the same assembled system and the same outcomes, the load
  being sampled with the spread \<open>0.1\<close> of the call. The Runge-Kutta solver samples
  the load with the configured spread, \<open>0.05\<close> in the script, and there are two runs
  that differ only in it and return different curves.
\<close>

theorem spread_independence:
  "(beam_deflection_central_difference (p\<lparr>p_spread := s\<rparr>) r \<longleftrightarrow>
      beam_deflection_central_difference p r) \<and>
   cd_system (p\<lparr>p_spread := s\<rparr>) = cd_system p \<and>
   (2 \<le> p_N p \<longrightarrow>
      (\<exists>x_vals A b. cd_system p = Inr (x_vals, A, b) \<and>
         (\<forall>i. interior (p_N p) i \<longrightarrow>
            b ! i = gaussian_load (p_P p) (x_vals ! i) (p_a p) (1 / 10) *
                      (p_L p / (real (p_N p) - 1)) ^ 4 / p_EI p))) \<and>
   system_of_odes p x [y1, y2, y3, y4] =
     Inr [y2, y3, y4, gaussian_load (p_P p) x (p_a p) (p_spread p) / p_EI p] \<and>
   p_spread ridwan_params = 5 / 100 \<and>
   (\<exists>q t. beam_deflection_rk4 (q\<lparr>p_spread := t\<rparr>) \<noteq> beam_deflection_rk4 q)"
proof -
  have sample: "\<exists>x_vals A b. cd_system p = Inr (x_vals, A, b) \<and>
         (\<forall>i. interior (p_N p) i \<longrightarrow>
            b ! i = gaussian_load (p_P p) (x_vals ! i) (p_a p) (1 / 10) *
                      (p_L p / (real (p_N p) - 1)) ^ 4 / p_EI p)" if n: "2 \<le> p_N p"
  proof -
    have "cd_vector p ! i =
            gaussian_load (p_P p) (np_linspace 0 (p_L p) (p_N p) ! i) (p_a p) (1 / 10) *
              (p_L p / (real (p_N p) - 1)) ^ 4 / p_EI p" if i: "interior (p_N p) i" for i
    proof -
      have "i < p_N p" using i by (simp add: interior_def)
      then show ?thesis by (rule cd_vector_nth_interior [OF n _ i])
    qed
    then show ?thesis using cd_system_eq [OF n] by blast
  qed
  have "beam_deflection_rk4 (short_beam\<lparr>p_spread := 2\<rparr>) \<noteq>
        beam_deflection_rk4 (short_beam\<lparr>p_spread := 1\<rparr>)"
    by (simp add: rk4_short_beam)
  moreover have "short_beam\<lparr>p_spread := 1\<rparr> = short_beam" by (simp add: short_beam_def)
  ultimately have "\<exists>q t. beam_deflection_rk4 (q\<lparr>p_spread := t\<rparr>) \<noteq> beam_deflection_rk4 q"
    by metis
  then show ?thesis
    using sample by (simp add: cd_spread cd_system_spread ridwan_fields)
qed

theorem spread_independence_witness:
  "\<exists>r. beam_deflection_central_difference (ridwan_params\<lparr>p_spread := 1\<rparr>) r \<and>
       beam_deflection_central_difference ridwan_params r"
proof -
  have "2 \<le> p_N ridwan_params" by (simp add: ridwan_fields)
  then obtain r where "beam_deflection_central_difference ridwan_params r"
    using cd_outcome by blast
  then show ?thesis
    using spread_independence [where p = ridwan_params and s = 1 and r = r] by blast
qed

subsection \<open>Outcomes at the edge of the range of a double\<close>

lemma float_overflow_threshold: "(2::real) ^ 1023 < 2 ^ 1024 - 2 ^ 970"
proof -
  have "(2::real) ^ 1024 = 2 ^ 970 * 2 ^ 54" and "(2::real) ^ 1023 = 2 ^ 970 * 2 ^ 53"
    by (simp_all add: power_add [symmetric])
  moreover have "(2::real) ^ 53 < 2 ^ 54 - 1" by simp
  then have "(2::real) ^ 970 * 2 ^ 53 < 2 ^ 970 * (2 ^ 54 - 1)"
    by (intro mult_strict_left_mono) simp_all
  ultimately show ?thesis by (simp add: algebra_simps)
qed

lemma in_range_no_overflow:
  assumes "2 \<le> p_N p" and "(p_L p / (real (p_N p) - 1)) ^ 4 \<le> 2 ^ 1023"
  shows "\<not> float_overflow ((p_L p / real_of_int (int (p_N p) - 1)) ^ 4)"
proof -
  let ?v = "(p_L p / (real (p_N p) - 1)) ^ 4"
  have e: "real_of_int (int (p_N p) - 1) = real (p_N p) - 1" by simp
  have "0 \<le> ?v" by simp
  then have "\<bar>?v\<bar> < 2 ^ 1024 - 2 ^ 970"
    using assms(2) float_overflow_threshold by linarith
  then show ?thesis
    unfolding float_overflow_def e by linarith
qed

lemma cd_py_in_range:
  assumes "2 \<le> p_N p" and "(p_L p / (real (p_N p) - 1)) ^ 4 \<le> 2 ^ 1023"
  shows "beam_deflection_central_difference_py p r \<longleftrightarrow>
           beam_deflection_central_difference p r"
  unfolding beam_deflection_central_difference_py_def
  using in_range_no_overflow [OF assms] by simp

lemma cd_py_no_linalg_error:
  assumes "2 \<le> p_N p" and "beam_deflection_central_difference_py p r"
  shows "r \<noteq> Inl LinAlgError"
proof (cases "float_overflow ((p_L p / real_of_int (int (p_N p) - 1)) ^ 4)")
  case True
  then have "r = Inl OverflowError"
    using assms by (simp add: beam_deflection_central_difference_py_def)
  then show ?thesis by simp
next
  case False
  then have "beam_deflection_central_difference p r"
    using assms(2) by (simp add: beam_deflection_central_difference_py_def)
  then show ?thesis using cd_outcome [OF assms(1)] by auto
qed

lemma cd_py_outcome_exists:
  assumes "2 \<le> p_N p"
  shows "\<exists>r. beam_deflection_central_difference_py p r"
proof (cases "float_overflow ((p_L p / real_of_int (int (p_N p) - 1)) ^ 4)")
  case True
  then have "beam_deflection_central_difference_py p (Inl OverflowError)"
    using assms by (simp add: beam_deflection_central_difference_py_def)
  then show ?thesis by blast
next
  case False
  obtain r where "beam_deflection_central_difference p r"
    using cd_outcome [OF assms] by blast
  then have "beam_deflection_central_difference_py p r"
    using False by (simp add: beam_deflection_central_difference_py_def)
  then show ?thesis by blast
qed

lemma long_beam_fields:
  "p_L (long_beam\<lparr>p_P := c\<rparr>) = 10 ^ 80" "p_N (long_beam\<lparr>p_P := c\<rparr>) = 5"
  "p_L long_beam = 10 ^ 80" "p_N long_beam = 5" "p_P (long_beam\<lparr>p_P := c\<rparr>) = c"
  by (simp_all add: long_beam_def)

lemma valid_long_beam: "valid_params long_beam" "valid_params (long_beam\<lparr>p_P := 0\<rparr>)"
  by (simp_all add: valid_params_def long_beam_def ridwan_fields)

lemma long_beam_overflow: "float_overflow ((10 ^ 80 / real_of_int (int 5 - 1)) ^ 4)"
proof -
  have "(2::real) ^ 1024 \<le> 16 ^ 256" by (simp add: power_mult [symmetric, of 2 4 256])
  also have "\<dots> \<le> (10 ^ 80 / 4) ^ 4"
  proof -
    have "(16::real) ^ 64 \<le> 10 ^ 80 / 4"
    proof -
      have "(16::real) ^ 64 * 4 \<le> 10 ^ 80" by simp
      then show ?thesis by (simp add: field_simps)
    qed
    then have "((16::real) ^ 64) ^ 4 \<le> (10 ^ 80 / 4) ^ 4"
      by (intro power_mono) simp_all
    then show ?thesis by (simp add: power_mult [symmetric])
  qed
  finally have "(2::real) ^ 1024 \<le> (10 ^ 80 / 4) ^ 4" .
  moreover have "(0::real) \<le> 2 ^ 970" by simp
  ultimately have "(2::real) ^ 1024 - 2 ^ 970 \<le> \<bar>(10 ^ 80 / 4) ^ 4\<bar>"
    by linarith
  then show ?thesis by (simp add: float_overflow_def)
qed

lemma cd_py_long_beam:
  assumes "p_L p = 10 ^ 80" and "p_N p = 5"
  shows "beam_deflection_central_difference_py p r \<longleftrightarrow> r = Inl OverflowError"
  unfolding beam_deflection_central_difference_py_def assms
  using long_beam_overflow by simp


text \<open>
  C3, amended. With no load (\<open>P = 0\<close>) and valid parameters within the range of a
  double (\<open>spread ** 2\<close> neither overflows nor underflows to zero, \<open>dx ** 4\<close> does not
  overflow), the Runge-Kutta solver returns a curve whose deflections are all zero, and
  the central-difference solver returns, and can only return, the grid with deflections
  all zero.
\<close>

theorem zero_load_zero_curves_in_range:
  assumes "valid_params p" and "p_P p = 0" and "in_double_range p"
  shows "(\<exists>xs. beam_deflection_rk4 p = Inr (xs, replicate (length xs) 0) \<and> xs \<noteq> []) \<and>
         (\<forall>r. beam_deflection_central_difference_py p r \<longleftrightarrow>
              r = Inr (np_linspace 0 (p_L p) (p_N p), replicate (p_N p) 0))"
proof -
  have dx: "p_dx p \<noteq> 0" and n: "2 \<le> p_N p" and pos: "0 < p_L p" "0 < p_dx p"
    using assms(1) by (simp_all add: valid_params_def)
  have rng: "(p_L p / (real (p_N p) - 1)) ^ 4 \<le> 2 ^ 1023"
    using assms(3) by (simp add: in_double_range_def)
  have "beam_deflection_rk4 p = Inr (rk4_grid p, replicate (length (rk4_grid p)) 0)"
    using beam_deflection_rk4_zero_load [OF dx assms(2)] by (simp add: rk4_grid_def)
  moreover have "rk4_grid p \<noteq> []"
    using rk4_count_ge2 [OF pos] by (auto simp add: rk4_grid_def)
  ultimately have "\<exists>xs. beam_deflection_rk4 p = Inr (xs, replicate (length xs) 0) \<and> xs \<noteq> []"
    by blast
  then show ?thesis
    using cd_zero_load [OF n cd_vector_zero_load [OF assms(2)]] cd_py_in_range [OF n rng]
    by blast
qed

theorem zero_load_zero_curves_in_range_witness:
  "valid_params (ridwan_params\<lparr>p_P := 0\<rparr>) \<and> p_P (ridwan_params\<lparr>p_P := 0\<rparr>) = 0 \<and>
   in_double_range (ridwan_params\<lparr>p_P := 0\<rparr>) \<and>
   rk4_deflections (ridwan_params\<lparr>p_P := 0\<rparr>) = replicate 101 0 \<and>
   beam_deflection_central_difference_py (ridwan_params\<lparr>p_P := 0\<rparr>)
     (Inr (np_linspace 0 10 101, replicate 101 0))"
proof -
  let ?p = "ridwan_params\<lparr>p_P := 0\<rparr>"
  have v: "valid_params ?p" and z: "p_P ?p = 0"
    by (simp_all add: valid_params_def ridwan_fields)
  have "(1::real) / 2 ^ 500 \<le> 1 / 2 ^ 5" "(1::real) / 2 ^ 5 \<le> 1 / 20"
    by (simp_all add: field_simps)
  then have s1: "(1::real) / 2 ^ 500 \<le> 1 / 20" by linarith
  have "(1::real) \<le> 2 ^ 500" by simp
  then have s2: "(1::real) / 20 \<le> 2 ^ 500" by linarith
  have "((10::real) / (real (101::nat) - 1)) ^ 4 \<le> 1" by (simp add: power_le_one_iff)
  moreover have "(1::real) \<le> 2 ^ 1023" by simp
  ultimately have s3: "((10::real) / (real (101::nat) - 1)) ^ 4 \<le> 2 ^ 1023" by linarith
  have i: "in_double_range ?p"
    using s1 s2 s3 by (simp add: in_double_range_def ridwan_fields)
  have c: "rk4_count ?p = 101"
    by (rule rk4_count_ridwan) (simp_all add: ridwan_fields)
  have dx: "p_dx ?p \<noteq> 0"
    by (simp add: ridwan_fields)
  have "beam_deflection_rk4 ?p = Inr (rk4_grid ?p, replicate 101 0)"
    using beam_deflection_rk4_zero_load [OF dx z] by (simp only: c)
  then have "rk4_deflections ?p = replicate 101 0"
    by (simp only: rk4_deflections_def sum.case prod.case)
  moreover have f: "p_L ?p = 10" "p_N ?p = 101"
    by (simp_all add: ridwan_fields)
  have "beam_deflection_central_difference_py ?p (Inr (np_linspace 0 10 101, replicate 101 0))"
    using zero_load_zero_curves_in_range [OF v z i] by (simp only: f)
  ultimately show ?thesis using v z i by blast
qed

theorem zero_load_overflow_counterexample:
  "valid_params (long_beam\<lparr>p_P := 0\<rparr>) \<and> p_P (long_beam\<lparr>p_P := 0\<rparr>) = 0 \<and>
   beam_deflection_central_difference_py (long_beam\<lparr>p_P := 0\<rparr>) (Inl OverflowError) \<and>
   \<not> beam_deflection_central_difference_py (long_beam\<lparr>p_P := 0\<rparr>)
       (Inr (np_linspace 0 (10 ^ 80) 5, replicate 5 0))"
  using cd_py_long_beam [OF long_beam_fields(1,2), of 0] valid_long_beam(2)
  by (simp add: long_beam_fields)

text \<open>
  C10, amended. For \<open>N \<ge> 5\<close> (and \<open>L > 0\<close>, \<open>EI > 0\<close>, \<open>spread > 0\<close>) the matrix
  of the linear system is not singular, the solver has an outcome, and LinAlgError is
  never one. Where \<open>dx ** 4\<close> stays within the range of a double
  (\<open>(L / (N - 1))^4 \<le> 2^1023\<close>) the system is assembled and every outcome is a curve
  of \<open>N\<close> points; where it overflows (\<open>(L / (N - 1))^4 \<ge> 2^1025\<close>) the solver
  raises OverflowError and returns no curve.
\<close>

theorem cd_solver_outcomes:
  assumes "5 \<le> p_N p" and "0 < p_L p" and "0 < p_EI p" and "0 < p_spread p"
  shows "\<not> singular (cd_matrix (p_N p)) \<and>
         (\<exists>r. beam_deflection_central_difference_py p r) \<and>
         (\<forall>r. beam_deflection_central_difference_py p r \<longrightarrow> r \<noteq> Inl LinAlgError) \<and>
         ((p_L p / (real (p_N p) - 1)) ^ 4 \<le> 2 ^ 1023 \<longrightarrow>
            (\<exists>x_vals b. cd_system p = Inr (x_vals, cd_matrix (p_N p), b)) \<and>
            (\<forall>r. beam_deflection_central_difference_py p r \<longrightarrow>
                 (\<exists>xs ys. r = Inr (xs, ys) \<and> length xs = p_N p \<and> length ys = p_N p))) \<and>
         (2 ^ 1025 \<le> (p_L p / (real (p_N p) - 1)) ^ 4 \<longrightarrow>
            (\<forall>r. beam_deflection_central_difference_py p r \<longleftrightarrow> r = Inl OverflowError))"
proof -
  have n: "2 \<le> p_N p" and n1: "p_N p \<noteq> 1" using assms(1) by simp_all
  have e: "real_of_int (int (p_N p) - 1) = real (p_N p) - 1" by simp
  have curve: "\<exists>xs ys. r = Inr (xs, ys) \<and> length xs = p_N p \<and> length ys = p_N p"
    if rng: "(p_L p / (real (p_N p) - 1)) ^ 4 \<le> 2 ^ 1023"
      and r: "beam_deflection_central_difference_py p r" for r
  proof -
    have "beam_deflection_central_difference p r"
      using r cd_py_in_range [OF n rng] by simp
    then show ?thesis
      using cd_end_points [OF n] by blast
  qed
  have over: "beam_deflection_central_difference_py p r \<longleftrightarrow> r = Inl OverflowError"
    if big: "2 ^ 1025 \<le> (p_L p / (real (p_N p) - 1)) ^ 4" for r
  proof -
    have "(2::real) ^ 1024 - 2 ^ 970 \<le> 2 ^ 1025" by simp
    then have "float_overflow ((p_L p / (real (p_N p) - 1)) ^ 4)"
      unfolding float_overflow_def using big by linarith
    then show ?thesis
      using n1 by (simp add: beam_deflection_central_difference_py_def e)
  qed
  show ?thesis
    using cd_matrix_nonsingular [of "p_N p"] cd_py_outcome_exists [OF n]
      cd_py_no_linalg_error [OF n] cd_system_eq [OF n] curve over
    by blast
qed

theorem cd_solver_outcomes_witness:
  "5 \<le> p_N ridwan_params \<and> 0 < p_L ridwan_params \<and> 0 < p_EI ridwan_params \<and>
   0 < p_spread ridwan_params \<and>
   (p_L ridwan_params / (real (p_N ridwan_params) - 1)) ^ 4 \<le> 2 ^ 1023 \<and>
   (\<exists>xs ys. beam_deflection_central_difference_py ridwan_params (Inr (xs, ys)) \<and>
      length xs = 101 \<and> length ys = 101)"
proof -
  have h: "5 \<le> p_N ridwan_params" "0 < p_L ridwan_params" "0 < p_EI ridwan_params"
    "0 < p_spread ridwan_params"
    by (simp_all add: ridwan_fields)
  have "((10::real) / (real (101::nat) - 1)) ^ 4 \<le> 1" by (simp add: power_le_one_iff)
  moreover have "(1::real) \<le> 2 ^ 1023" by simp
  ultimately have "((10::real) / (real (101::nat) - 1)) ^ 4 \<le> 2 ^ 1023" by linarith
  then have rng: "(p_L ridwan_params / (real (p_N ridwan_params) - 1)) ^ 4 \<le> 2 ^ 1023"
    by (simp only: ridwan_fields)
  have ex: "\<exists>r. beam_deflection_central_difference_py ridwan_params r"
    and out: "\<forall>r. beam_deflection_central_difference_py ridwan_params r \<longrightarrow>
                 (\<exists>xs ys. r = Inr (xs, ys) \<and> length xs = p_N ridwan_params \<and>
                    length ys = p_N ridwan_params)"
    using cd_solver_outcomes [OF h] rng by blast+
  have "\<exists>xs ys. beam_deflection_central_difference_py ridwan_params (Inr (xs, ys)) \<and>
      length xs = 101 \<and> length ys = 101"
    using ex out unfolding ridwan_fields by blast
  then show ?thesis using h rng by blast
qed

theorem cd_overflow_counterexample:
  "5 \<le> p_N long_beam \<and> 0 < p_L long_beam \<and> 0 < p_EI long_beam \<and> 0 < p_spread long_beam \<and>
   beam_deflection_central_difference_py long_beam (Inl OverflowError) \<and>
   \<not> (\<exists>xs ys. beam_deflection_central_difference_py long_beam (Inr (xs, ys)))"
  using cd_py_long_beam [OF long_beam_fields(3,4)]
  by (simp add: long_beam_def ridwan_fields)


subsection \<open>The Runge-Kutta curve of the script\<close>

lemma ridwan_rk4_count: "rk4_count ridwan_params = 101"
  by (rule rk4_count_ridwan) (simp_all add: ridwan_fields)

lemma ridwan_rk4_grid_nth: "i < 101 \<Longrightarrow> rk4_grid ridwan_params ! i = real i / 10"
  by (simp add: rk4_grid_def ridwan_rk4_count ridwan_fields)

lemma ridwan_rk4_curve:
  "\<exists>ys. beam_deflection_rk4 ridwan_params = Inr (rk4_grid ridwan_params, ys) \<and>
        length ys = 101 \<and> ys ! 0 = 0 \<and> (\<forall>i<100. \<bar>ys ! i\<bar> < \<bar>ys ! 100\<bar>)"
proof -
  have pos: "0 < p_P ridwan_params" "0 < p_EI ridwan_params" "0 < p_spread ridwan_params"
    "0 < p_dx ridwan_params" "0 < p_L ridwan_params"
    by (simp_all add: ridwan_fields)
  obtain ys where ys: "beam_deflection_rk4 ridwan_params = Inr (rk4_grid ridwan_params, ys)"
    "length ys = 101" "sorted_wrt (<) ys" "\<forall>y\<in>set ys. 0 \<le> y"
    using beam_deflection_rk4_increasing [OF pos(1-4)] unfolding ridwan_rk4_count by blast
  obtain xs' ys' where s: "beam_deflection_rk4 ridwan_params = Inr (xs', ys')" "ys' ! 0 = 0"
    using rk4_start_point [OF pos(5) pos(4)] by blast
  have y0: "ys ! 0 = 0" using s ys(1) by simp
  have "\<bar>ys ! i\<bar> < \<bar>ys ! 100\<bar>" if i: "i < 100" for i
  proof -
    have "ys ! i < ys ! 100"
      using ys(2,3) i by (simp add: sorted_wrt_iff_nth_less)
    moreover have "0 \<le> ys ! i"
      using ys(2,4) i by simp
    ultimately show ?thesis by simp
  qed
  then show ?thesis using ys(1,2) y0 by blast
qed

text \<open>
  C7, amended. With the constants of the script the Runge-Kutta solver, started from
  \<open>Y = (0, 0, 0, 0)\<close> at \<open>x = 0\<close>, returns exactly 101 points \<open>x i = i / 10\<close>, from
  \<open>x = 0\<close> to \<open>x = 10\<close> in increasing order, with \<open>y[0] = 0\<close>; the magnitude of the
  deflection is largest at the last point \<open>x = 10\<close>, where it exceeds the magnitude at
  every other point.
\<close>

theorem ridwan_rk4_curve_shape:
  "\<exists>xs ys. beam_deflection_rk4 ridwan_params = Inr (xs, ys) \<and>
     length xs = 101 \<and> length ys = 101 \<and> (\<forall>i<101. xs ! i = real i / 10) \<and>
     sorted_wrt (<) xs \<and> xs ! 0 = 0 \<and> xs ! 100 = 10 \<and> ys ! 0 = 0 \<and>
     (\<forall>i<100. \<bar>ys ! i\<bar> < \<bar>ys ! 100\<bar>)"
proof -
  let ?xs = "rk4_grid ridwan_params"
  obtain ys where ys: "beam_deflection_rk4 ridwan_params = Inr (?xs, ys)"
    "length ys = 101" "ys ! 0 = 0" "\<forall>i<100. \<bar>ys ! i\<bar> < \<bar>ys ! 100\<bar>"
    using ridwan_rk4_curve by blast
  have "length ?xs = 101"
    by (simp add: rk4_grid_def ridwan_rk4_count)
  moreover have "\<forall>i<101. ?xs ! i = real i / 10"
    by (simp add: ridwan_rk4_grid_nth)
  moreover have "sorted_wrt (<) ?xs"
    by (rule rk4_grid_sorted) (simp add: ridwan_fields)
  moreover have "?xs ! 0 = 0" "?xs ! 100 = 10"
    by (simp_all add: ridwan_rk4_grid_nth)
  ultimately show ?thesis using ys by blast
qed

theorem ridwan_rk4_curve_shape_witness:
  "\<exists>xs ys. beam_deflection_rk4 ridwan_params = Inr (xs, ys) \<and> xs ! 100 = 10 \<and>
     ys ! 0 = 0 \<and> \<bar>ys ! 0\<bar> < \<bar>ys ! 100\<bar>"
proof -
  obtain xs ys where c: "beam_deflection_rk4 ridwan_params = Inr (xs, ys)" "xs ! 100 = 10"
    "ys ! 0 = 0" "\<forall>i<100. \<bar>ys ! i\<bar> < \<bar>ys ! 100\<bar>"
    using ridwan_rk4_curve_shape by blast
  have "\<bar>ys ! 0\<bar> < \<bar>ys ! 100\<bar>"
    using c(4) by (elim allE [of _ 0]) simp
  then show ?thesis using c(1,2,3) by blast
qed

theorem ridwan_rk4_peak_counterexample:
  "length (rk4_deflections ridwan_params) = 101 \<and>
   rk4_positions ridwan_params ! 50 = 5 \<and> rk4_positions ridwan_params ! 100 = 10 \<and>
   \<bar>rk4_deflections ridwan_params ! 50\<bar> < \<bar>rk4_deflections ridwan_params ! 100\<bar>"
proof -
  obtain ys where ys: "beam_deflection_rk4 ridwan_params = Inr (rk4_grid ridwan_params, ys)"
    "length ys = 101" "\<forall>i<100. \<bar>ys ! i\<bar> < \<bar>ys ! 100\<bar>"
    using ridwan_rk4_curve by blast
  have d: "rk4_deflections ridwan_params = ys"
    and p: "rk4_positions ridwan_params = rk4_grid ridwan_params"
    by (simp_all add: rk4_deflections_def rk4_positions_def ys(1))
  have "\<bar>ys ! 50\<bar> < \<bar>ys ! 100\<bar>"
    using ys(3) by (elim allE [of _ 50]) simp
  then show ?thesis
    unfolding d p using ys(2) by (simp add: ridwan_rk4_grid_nth)
qed

subsection \<open>The load function at and outside its domain\<close>

lemma fl_zero [simp]: "fl 0 = Finite 0"
  by (simp add: fl_def float_overflow_def float_underflow_def)

lemma fl_in_range:
  assumes "\<bar>v\<bar> \<le> 2 ^ 1023"
  shows "\<exists>w. fl v = Finite w \<and> \<bar>w\<bar> \<le> \<bar>v\<bar> \<and> (0 \<le> v \<longrightarrow> 0 \<le> w) \<and> (v \<le> 0 \<longrightarrow> w \<le> 0)"
proof -
  have "\<not> float_overflow v"
    unfolding float_overflow_def using assms float_overflow_threshold by linarith
  then show ?thesis by (simp add: fl_def)
qed

lemma fl_exact:
  assumes "1 / 2 ^ 1074 \<le> \<bar>v\<bar>" and "\<bar>v\<bar> \<le> 2 ^ 1023"
  shows "fl v = Finite v"
proof -
  have "\<not> float_overflow v"
    unfolding float_overflow_def using assms(2) float_overflow_threshold by linarith
  moreover have "(1::real) / 2 ^ 1075 < 1 / 2 ^ 1074"
    by (simp add: field_simps)
  then have "\<not> float_underflow v"
    unfolding float_underflow_def using assms(1) by linarith
  ultimately show ?thesis by (simp add: fl_def)
qed

lemma fl_cases: "(\<exists>w. fl v = Finite w) \<or> fl v = PosInf \<and> 0 < v \<or> fl v = NegInf \<and> v \<le> 0"
  by (simp add: fl_def)

lemma fl_nonpos:
  assumes "v \<le> 0"
  shows "(\<exists>w. fl v = Finite w \<and> w \<le> 0) \<or> fl v = NegInf"
  using assms by (simp add: fl_def)

lemma py_square_in_range:
  assumes "\<bar>v\<bar> \<le> 2 ^ 500"
  shows "\<exists>t. py_square (Finite v) = Inr (Finite t) \<and> np_square (Finite v) = Finite t \<and>
           0 \<le> t \<and> t \<le> 2 ^ 1000"
proof -
  have "\<bar>v\<bar>\<^sup>2 \<le> (2 ^ 500)\<^sup>2"
    using assms by (intro power_mono) simp_all
  then have b: "v\<^sup>2 \<le> 2 ^ 1000"
    by (simp add: power_mult [symmetric])
  have "(2::real) ^ 1000 \<le> 2 ^ 1023" by (rule power_increasing) simp_all
  then have r: "\<bar>v\<^sup>2\<bar> \<le> 2 ^ 1023" using b by simp
  then have "\<not> float_overflow (v\<^sup>2)"
    unfolding float_overflow_def using float_overflow_threshold by linarith
  moreover obtain t where "fl (v\<^sup>2) = Finite t" "\<bar>t\<bar> \<le> \<bar>v\<^sup>2\<bar>" "0 \<le> t"
    using fl_in_range [OF r] by auto
  ultimately show ?thesis using b by auto
qed

lemma py_square_spread:
  assumes "1 / 2 ^ 500 \<le> \<bar>sp\<bar>" and "\<bar>sp\<bar> \<le> 2 ^ 500"
  shows "py_square (Finite sp) = Inr (Finite (sp\<^sup>2))" and "1 / 2 ^ 1000 \<le> sp\<^sup>2"
    and "sp\<^sup>2 \<le> 2 ^ 1000"
proof -
  have "\<bar>sp\<bar>\<^sup>2 \<le> (2 ^ 500)\<^sup>2"
    using assms(2) by (intro power_mono) simp_all
  then show hi: "sp\<^sup>2 \<le> 2 ^ 1000"
    by (simp add: power_mult [symmetric])
  have "(1 / 2 ^ 500)\<^sup>2 \<le> \<bar>sp\<bar>\<^sup>2"
    using assms(1) by (intro power_mono) simp_all
  then show lo: "1 / 2 ^ 1000 \<le> sp\<^sup>2"
    by (simp add: power_mult [symmetric] power_divide)
  have "(2::real) ^ 1000 \<le> 2 ^ 1023" by (rule power_increasing) simp_all
  then have r: "\<bar>sp\<^sup>2\<bar> \<le> 2 ^ 1023" using hi by simp
  have "(1::real) / 2 ^ 1074 \<le> 1 / 2 ^ 1000"
    by (intro divide_left_mono power_increasing) simp_all
  then have l: "1 / 2 ^ 1074 \<le> \<bar>sp\<^sup>2\<bar>" using lo by simp
  have "\<not> float_overflow (sp\<^sup>2)"
    unfolding float_overflow_def using r float_overflow_threshold by linarith
  then show "py_square (Finite sp) = Inr (Finite (sp\<^sup>2))"
    using fl_exact [OF l r] by simp
qed

lemma sqrt_two_pi_ge_2: "2 \<le> sqrt (2 * pi)"
proof -
  have "2\<^sup>2 \<le> 2 * pi" using pi_ge_two by simp
  then show ?thesis by (intro real_le_rsqrt)
qed


lemma fl_moderate:
  assumes "1 / 2 ^ 1000 \<le> \<bar>v\<bar>" and "\<bar>v\<bar> \<le> 2 ^ 1000"
  shows "fl v = Finite v"
proof -
  have "(1::real) / 2 ^ 1074 \<le> 1 / 2 ^ 1000"
    by (intro divide_left_mono power_increasing) simp_all
  moreover have "(2::real) ^ 1000 \<le> 2 ^ 1023"
    by (rule power_increasing) simp_all
  ultimately show ?thesis
    using assms by (intro fl_exact) linarith+
qed

lemma fl_nonneg:
  assumes "0 \<le> v"
  shows "(\<exists>w. fl v = Finite w \<and> 0 \<le> w) \<or> fl v = PosInf"
proof (cases "v = 0")
  case True
  then show ?thesis by simp
next
  case False
  then have "0 < v" using assms by simp
  then show ?thesis using assms by (simp add: fl_def)
qed

lemma np_square_cases:
  assumes "u \<noteq> NaN"
  shows "(\<exists>t. np_square u = Finite t \<and> 0 \<le> t) \<or> np_square u = PosInf"
proof (cases u)
  case (Finite v)
  then show ?thesis using fl_nonneg [of "v\<^sup>2"] by simp
qed (use assms in simp_all)

lemma fl_not_NaN: "fl v \<noteq> NaN"
  by (simp add: fl_def)

lemma float_overflow_zero [simp]: "\<not> float_overflow 0"
  by (simp add: float_overflow_def)

lemma py_square_zero: "py_square (Finite 0) = Inr (Finite 0)"
  by simp

lemma np_tail_zero_spread:
  assumes "(\<exists>t. t2 = Finite t \<and> 0 \<le> t) \<or> t2 = PosInf"
  shows "np_true_divide
           (np_multiply (Finite Pl) (np_exp (np_true_divide (np_negative t2) (Finite 0))))
           (Finite 0) = NaN"
proof -
  consider t where "t2 = Finite t" "t = 0" | t where "t2 = Finite t" "0 < t" | "t2 = PosInf"
    using assms by fastforce
  then show ?thesis
    by cases simp_all
qed

lemma gaussian_load_py_np_zero_spread: "gaussian_load_py NpFloat64 Pl x al 0 = Inr NaN"
proof -
  have "np_multiply (Finite 2) (Finite 0) = Finite 0"
    and "np_multiply (Finite 0) (Finite (sqrt (2 * pi))) = Finite 0"
    by simp_all
  then show ?thesis
    using np_tail_zero_spread [OF np_square_cases [OF fl_not_NaN [of "x - al"]], of Pl]
    by (simp add: gaussian_load_py_def bind_def py_square_zero)
qed

lemma fl_distance:
  assumes "\<bar>x - al\<bar> \<le> 2 ^ 500"
  shows "\<exists>w. fl (x - al) = Finite w \<and> \<bar>w\<bar> \<le> 2 ^ 500"
proof -
  have "(2::real) ^ 500 \<le> 2 ^ 1023" by (rule power_increasing) simp_all
  then have "\<bar>x - al\<bar> \<le> 2 ^ 1023" using assms by linarith
  from fl_in_range [OF this] obtain w where "fl (x - al) = Finite w" "\<bar>w\<bar> \<le> \<bar>x - al\<bar>"
    by blast
  then show ?thesis using assms by auto
qed

lemma gaussian_load_py_float_zero_spread:
  assumes "\<bar>x - al\<bar> \<le> 2 ^ 500"
  shows "gaussian_load_py PyFloat Pl x al 0 = Inl ZeroDivisionError"
proof -
  obtain w where w: "fl (x - al) = Finite w" "\<bar>w\<bar> \<le> 2 ^ 500"
    using fl_distance [OF assms] by blast
  obtain t where t: "py_square (Finite w) = Inr (Finite t)"
    using py_square_in_range [OF w(2)] by blast
  have "np_multiply (Finite 2) (Finite 0) = Finite 0" by simp
  then show ?thesis
    by (simp add: gaussian_load_py_def Let_def bind_def py_square_zero w(1) t
        py_true_divide_def del: py_square.simps)
qed

lemma gaussian_load_py_spread_overflow:
  assumes "\<bar>x - al\<bar> \<le> 2 ^ 500" and "float_overflow (sp\<^sup>2)"
  shows "gaussian_load_py kind Pl x al sp = Inl OverflowError"
proof -
  obtain w where w: "fl (x - al) = Finite w" "\<bar>w\<bar> \<le> 2 ^ 500"
    using fl_distance [OF assms(1)] by blast
  obtain t where t: "py_square (Finite w) = Inr (Finite t)" "np_square (Finite w) = Finite t"
    using py_square_in_range [OF w(2)] by blast
  have "py_square (Finite sp) = Inl OverflowError"
    using assms(2) by simp
  then show ?thesis
    by (simp add: gaussian_load_py_def Let_def bind_def w(1) t
        del: py_square.simps np_square.simps)
qed

lemma np_exp_nonpos:
  assumes "(\<exists>w. q = Finite w \<and> w \<le> 0) \<or> q = NegInf"
  shows "\<exists>e. np_exp q = Finite e \<and> 0 \<le> e \<and> e \<le> 1"
proof -
  consider w where "q = Finite w" "w \<le> 0" | "q = NegInf"
    using assms by blast
  then show ?thesis
  proof cases
    case 1
    have le: "\<bar>exp w\<bar> \<le> 1" using 1(2) by simp
    moreover have "(1::real) \<le> 2 ^ 1023" by simp
    ultimately have "\<bar>exp w\<bar> \<le> 2 ^ 1023" by linarith
    from fl_in_range [OF this] obtain e where e: "fl (exp w) = Finite e"
      "\<bar>e\<bar> \<le> \<bar>exp w\<bar>" "0 \<le> e"
      by auto
    have "e \<le> 1" using e(2) le by linarith
    then show ?thesis using 1(1) e(1,3) by simp
  next
    case 2
    then show ?thesis by simp
  qed
qed

lemma gaussian_load_py_in_range:
  assumes x: "\<bar>x - al\<bar> \<le> 2 ^ 500" and lo: "1 / 2 ^ 500 \<le> \<bar>sp\<bar>" and hi: "\<bar>sp\<bar> \<le> 2 ^ 500"
    and pl: "\<bar>Pl\<bar> \<le> 2 ^ 500"
  shows "\<exists>v. gaussian_load_py kind Pl x al sp = Inr (Finite v) \<and>
           (0 \<le> Pl \<and> sp < 0 \<longrightarrow> v \<le> 0) \<and> (0 \<le> Pl \<and> 0 < sp \<longrightarrow> 0 \<le> v)"
proof -
  obtain w where w: "fl (x - al) = Finite w" "\<bar>w\<bar> \<le> 2 ^ 500"
    using fl_distance [OF x] by blast
  obtain t where t: "py_square (Finite w) = Inr (Finite t)" "np_square (Finite w) = Finite t"
    "0 \<le> t"
    using py_square_in_range [OF w(2)] by blast
  note s = py_square_spread [OF lo hi]
  have s0: "0 < sp\<^sup>2" using lo by (simp add: zero_less_power2) 
  have "(1::real) / 2 ^ 1000 \<le> 2 * (1 / 2 ^ 1000)" by simp
  then have d1lo: "1 / 2 ^ 1000 \<le> \<bar>2 * sp\<^sup>2\<bar>" using s(2) by simp
  have "(2::real) * 2 ^ 1000 = 2 ^ 1001" by simp
  moreover have "(2::real) ^ 1001 \<le> 2 ^ 1023" by (rule power_increasing) simp_all
  ultimately have d1hi: "\<bar>2 * sp\<^sup>2\<bar> \<le> 2 ^ 1023" using s(3) by simp
  have "(1::real) / 2 ^ 1074 \<le> 1 / 2 ^ 1000"
    by (intro divide_left_mono power_increasing) simp_all
  then have "1 / 2 ^ 1074 \<le> \<bar>2 * sp\<^sup>2\<bar>" using d1lo by linarith
  then have d1: "np_multiply (Finite 2) (Finite (sp\<^sup>2)) = Finite (2 * sp\<^sup>2)"
    using fl_exact [OF _ d1hi] by simp
  have d1n: "Finite (2 * sp\<^sup>2) \<noteq> Finite 0" using s0 by simp
  have "- t / (2 * sp\<^sup>2) \<le> 0" using t(3) s0 by (simp add: divide_nonpos_pos)
  from fl_nonpos [OF this] obtain e where e: "np_exp (fl (- t / (2 * sp\<^sup>2))) = Finite e"
    "0 \<le> e" "e \<le> 1"
    using np_exp_nonpos by blast
  have q: "np_exp (np_true_divide (np_negative (Finite t)) (Finite (2 * sp\<^sup>2))) = Finite e"
    using e(1) s0 by simp
  have "\<bar>Pl * e\<bar> \<le> \<bar>Pl\<bar> * 1"
    unfolding abs_mult using e(2,3) by (intro mult_left_mono) simp_all
  then have ne: "\<bar>Pl * e\<bar> \<le> 2 ^ 500" using pl by simp
  have "(2::real) ^ 500 \<le> 2 ^ 1023" by (rule power_increasing) simp_all
  then have "\<bar>Pl * e\<bar> \<le> 2 ^ 1023" using ne by linarith
  from fl_in_range [OF this] obtain n where n: "fl (Pl * e) = Finite n" "\<bar>n\<bar> \<le> \<bar>Pl * e\<bar>"
    "0 \<le> Pl * e \<longrightarrow> 0 \<le> n"
    by blast
  have nb: "\<bar>n\<bar> \<le> 2 ^ 500" using n(2) ne by linarith
  have np: "0 \<le> Pl \<Longrightarrow> 0 \<le> n" using n(3) e(2) by simp
  let ?c = "sp * sqrt (2 * pi)"
  have r2: "2 \<le> sqrt (2 * pi)" and r3: "sqrt (2 * pi) < 3"
    by (rule sqrt_two_pi_ge_2) (rule sqrt_two_pi_less_3)
  have ca: "\<bar>?c\<bar> = \<bar>sp\<bar> * sqrt (2 * pi)" by (simp add: abs_mult)
  have "1 / 2 ^ 500 * 2 \<le> \<bar>sp\<bar> * sqrt (2 * pi)"
    using lo r2 by (intro mult_mono) simp_all
  then have clo: "1 / 2 ^ 499 \<le> \<bar>?c\<bar>" unfolding ca by simp
  have "\<bar>sp\<bar> * sqrt (2 * pi) \<le> 2 ^ 500 * 3"
    using hi r3 by (intro mult_mono) simp_all
  moreover have "(2::real) ^ 500 * 3 \<le> 2 ^ 500 * 2 ^ 2" by simp
  moreover have "(2::real) ^ 500 * 2 ^ 2 = 2 ^ 502" by (simp add: power_add [symmetric])
  ultimately have chi: "\<bar>?c\<bar> \<le> 2 ^ 502" unfolding ca by linarith
  have "(1::real) / 2 ^ 1000 \<le> 1 / 2 ^ 499"
    by (intro divide_left_mono power_increasing) simp_all
  moreover have "(2::real) ^ 502 \<le> 2 ^ 1000" by (rule power_increasing) simp_all
  ultimately have c: "fl ?c = Finite ?c"
    using clo chi by (intro fl_moderate) linarith+
  have cpos: "0 < \<bar>?c\<bar>"
  proof -
    have "(0::real) < 1 / 2 ^ 499" by simp
    then show ?thesis using clo by linarith
  qed
  then have cn: "?c \<noteq> 0" by simp
  have "(0::real) < 1 / 2 ^ 499" by simp
  then have "\<bar>n\<bar> / \<bar>?c\<bar> \<le> 2 ^ 500 / (1 / 2 ^ 499)"
    using nb clo by (intro frac_le) simp_all
  moreover have "\<bar>n / ?c\<bar> = \<bar>n\<bar> / \<bar>?c\<bar>" by (rule abs_divide)
  ultimately have "\<bar>n / ?c\<bar> \<le> 2 ^ 500 / (1 / 2 ^ 499)" by simp
  also have "\<dots> = 2 ^ 999" by (simp add: power_add [symmetric])
  also have "\<dots> \<le> 2 ^ 1023" by (rule power_increasing) simp_all
  finally have "\<bar>n / ?c\<bar> \<le> 2 ^ 1023" .
  from fl_in_range [OF this] obtain v where v: "fl (n / ?c) = Finite v"
    "0 \<le> n / ?c \<longrightarrow> 0 \<le> v" "n / ?c \<le> 0 \<longrightarrow> v \<le> 0"
    by blast
  have n': "np_multiply (Finite Pl) (Finite e) = Finite n"
    using n(1) by simp
  have c': "np_multiply (Finite sp) (Finite (sqrt (2 * pi))) = Finite ?c"
    using c by simp
  have v': "np_true_divide (Finite n) (Finite ?c) = Finite v"
    using cn v(1) by simp
  have res: "gaussian_load_py kind Pl x al sp = Inr (Finite v)"
    using d1n
    by (simp add: gaussian_load_py_def Let_def bind_def w(1) t(1,2) s(1) d1 py_true_divide_def
        q n' c' v' del: py_square.simps np_square.simps np_multiply.simps
        np_true_divide.simps np_negative.simps np_exp.simps)
  have "v \<le> 0" if "0 \<le> Pl" "sp < 0"
  proof -
    have "?c < 0" using that(2) r2 by (simp add: mult_neg_pos)
    then have "n / ?c \<le> 0" using np [OF that(1)] by (simp add: divide_nonneg_neg)
    then show ?thesis using v(3) by simp
  qed
  moreover have "0 \<le> v" if "0 \<le> Pl" "0 < sp"
  proof -
    have "0 < ?c" using that(2) r2 by simp
    then have "0 \<le> n / ?c" using np [OF that(1)] by simp
    then show ?thesis using v(2) by simp
  qed
  ultimately show ?thesis using res by blast
qed


lemma float_overflow_one [simp]: "\<not> float_overflow 1"
proof -
  have "(1::real) \<le> 2 ^ 1023" by simp
  then show ?thesis
    unfolding float_overflow_def using float_overflow_threshold by simp
qed

lemma fl_numerals: "fl 1 = Finite 1" "fl 2 = Finite 2" "fl 1000 = Finite 1000"
proof -
  have lo: "(1::real) / 2 ^ 1000 \<le> 1" by (simp add: field_simps)
  have "(2::real) ^ 10 \<le> 2 ^ 1000" by (rule power_increasing) simp_all
  then have hi: "(1024::real) \<le> 2 ^ 1000" by simp
  show "fl 1 = Finite 1" "fl 2 = Finite 2" "fl 1000 = Finite 1000"
    using lo hi by (intro fl_moderate; simp)+
qed

lemma fl_sqrt_two_pi:
  "fl (- sqrt (2 * pi)) = Finite (- sqrt (2 * pi))"
  "fl (- (1000 / sqrt (2 * pi))) = Finite (- (1000 / sqrt (2 * pi)))"
proof -
  have lo: "(1::real) / 2 ^ 1000 \<le> 1" by (simp add: field_simps)
  have "(2::real) ^ 10 \<le> 2 ^ 1000" by (rule power_increasing) simp_all
  then have hi: "(1024::real) \<le> 2 ^ 1000" by simp
  have r2: "2 \<le> sqrt (2 * pi)" and r3: "sqrt (2 * pi) < 3"
    by (rule sqrt_two_pi_ge_2) (rule sqrt_two_pi_less_3)
  have a: "\<bar>- sqrt (2 * pi)\<bar> = sqrt (2 * pi)" by simp
  show "fl (- sqrt (2 * pi)) = Finite (- sqrt (2 * pi))"
  proof (rule fl_moderate)
    show "1 / 2 ^ 1000 \<le> \<bar>- sqrt (2 * pi)\<bar>"
      unfolding a using lo r2 by linarith
    show "\<bar>- sqrt (2 * pi)\<bar> \<le> 2 ^ 1000"
      unfolding a using hi r3 by linarith
  qed
  have q1: "1000 / sqrt (2 * pi) \<le> 1000 / 2"
    using r2 by (intro divide_left_mono) simp_all
  have "0 < sqrt (2 * pi)" using r2 by linarith
  then have "1000 / 3 \<le> 1000 / sqrt (2 * pi)"
    using r3 by (intro divide_left_mono) simp_all
  moreover have "(1::real) \<le> 1000 / 3" by simp
  ultimately have q2: "1 \<le> 1000 / sqrt (2 * pi)" by linarith
  have b: "\<bar>- (1000 / sqrt (2 * pi))\<bar> = 1000 / sqrt (2 * pi)" by simp
  show "fl (- (1000 / sqrt (2 * pi))) = Finite (- (1000 / sqrt (2 * pi)))"
  proof (rule fl_moderate)
    show "1 / 2 ^ 1000 \<le> \<bar>- (1000 / sqrt (2 * pi))\<bar>"
      unfolding b using lo q2 by linarith
    show "\<bar>- (1000 / sqrt (2 * pi))\<bar> \<le> 2 ^ 1000"
      unfolding b using hi q1 by linarith
  qed
qed

lemma gaussian_load_py_negative_spread:
  "gaussian_load_py kind 1000 5 5 (- 1) = Inr (Finite (- (1000 / sqrt (2 * pi))))"
  by (simp add: gaussian_load_py_def Let_def bind_def py_true_divide_def fl_numerals
      fl_sqrt_two_pi)

lemma spread_overflow: "float_overflow ((2 ^ 600)\<^sup>2)"
proof -
  have "(2::real) ^ 1024 \<le> 2 ^ 1200" by (rule power_increasing) simp_all
  moreover have "((2::real) ^ 600)\<^sup>2 = 2 ^ 1200" by (simp add: power_mult [symmetric])
  moreover have "(0::real) \<le> 2 ^ 970" by simp
  ultimately have "2 ^ 1024 - 2 ^ 970 \<le> \<bar>((2::real) ^ 600)\<^sup>2\<bar>" by linarith
  then show ?thesis by (simp only: float_overflow_def)
qed

text \<open>
  C5, amended. The load function has no check of \<open>spread\<close>. At \<open>spread = 0\<close> it
  returns NaN without raising when \<open>x\<close> is a numpy value, as in both solvers, and raises
  ZeroDivisionError when \<open>x\<close> is a Python float. For a spread of either sign within
  the range of a double (\<open>2^-500 \<le> |spread| \<le> 2^500\<close>, with \<open>|x - a|\<close> and \<open>|P|\<close>
  at most \<open>2^500\<close>) it raises nothing and returns a finite value, which for
  \<open>P \<ge> 0\<close> is not positive where \<open>spread < 0\<close> and not negative where
  \<open>spread > 0\<close>. Where \<open>spread ** 2\<close> overflows it raises OverflowError.
\<close>

theorem gaussian_load_unchecked:
  "gaussian_load_py NpFloat64 Pl x al 0 = Inr NaN \<and>
   (\<bar>x - al\<bar> \<le> 2 ^ 500 \<longrightarrow> gaussian_load_py PyFloat Pl x al 0 = Inl ZeroDivisionError) \<and>
   (\<bar>x - al\<bar> \<le> 2 ^ 500 \<and> 1 / 2 ^ 500 \<le> \<bar>sp\<bar> \<and> \<bar>sp\<bar> \<le> 2 ^ 500 \<and> \<bar>Pl\<bar> \<le> 2 ^ 500 \<longrightarrow>
      (\<exists>v. gaussian_load_py kind Pl x al sp = Inr (Finite v) \<and>
         (0 \<le> Pl \<and> sp < 0 \<longrightarrow> v \<le> 0) \<and> (0 \<le> Pl \<and> 0 < sp \<longrightarrow> 0 \<le> v))) \<and>
   (\<bar>x - al\<bar> \<le> 2 ^ 500 \<and> float_overflow (sp\<^sup>2) \<longrightarrow>
      gaussian_load_py kind Pl x al sp = Inl OverflowError)"
  using gaussian_load_py_np_zero_spread [of Pl x al]
    gaussian_load_py_float_zero_spread [of x al Pl]
    gaussian_load_py_in_range [of x al sp Pl kind]
    gaussian_load_py_spread_overflow [of x al sp kind Pl]
  by blast

theorem gaussian_load_unchecked_witness:
  "\<bar>5 - 5\<bar> \<le> (2::real) ^ 500 \<and> 1 / 2 ^ 500 \<le> \<bar>- 1 :: real\<bar> \<and> \<bar>- 1 :: real\<bar> \<le> 2 ^ 500 \<and>
   \<bar>1000 :: real\<bar> \<le> 2 ^ 500 \<and> (0::real) \<le> 1000 \<and> (- 1 :: real) < 0 \<and>
   float_overflow ((2 ^ 600)\<^sup>2) \<and>
   (\<exists>v. gaussian_load_py NpFloat64 1000 5 5 (- 1) = Inr (Finite v) \<and> v \<le> 0) \<and>
   gaussian_load_py PyFloat 1000 5 5 0 = Inl ZeroDivisionError \<and>
   gaussian_load_py NpFloat64 1000 5 5 (2 ^ 600) = Inl OverflowError"
proof -
  have x: "\<bar>5 - 5\<bar> \<le> (2::real) ^ 500" by simp
  have lo: "1 / 2 ^ 500 \<le> \<bar>- 1 :: real\<bar>" by (simp add: field_simps)
  have hi: "\<bar>- 1 :: real\<bar> \<le> 2 ^ 500" by simp
  have "(2::real) ^ 10 \<le> 2 ^ 500" by (rule power_increasing) simp_all
  then have pl: "\<bar>1000 :: real\<bar> \<le> 2 ^ 500" by simp
  note t1 = gaussian_load_unchecked [of 1000 5 5 "- 1" NpFloat64]
  note t2 = gaussian_load_unchecked [of 1000 5 5 "2 ^ 600" NpFloat64]
  have "\<exists>v. gaussian_load_py NpFloat64 1000 5 5 (- 1) = Inr (Finite v) \<and> v \<le> 0"
    using t1 x lo hi pl by fastforce
  moreover have "gaussian_load_py PyFloat 1000 5 5 0 = Inl ZeroDivisionError"
    using t1 x by blast
  moreover have "gaussian_load_py NpFloat64 1000 5 5 (2 ^ 600) = Inl OverflowError"
    using t2 x spread_overflow by blast
  ultimately show ?thesis
    using x lo hi pl spread_overflow by simp
qed

theorem gaussian_load_negative_spread_counterexample:
  "gaussian_load_py NpFloat64 1000 5 5 (- 1) = Inr (Finite (- (1000 / sqrt (2 * pi)))) \<and>
   gaussian_load_py PyFloat 1000 5 5 (- 1) = Inr (Finite (- (1000 / sqrt (2 * pi)))) \<and>
   - (1000 / sqrt (2 * pi)) < 0 \<and>
   gaussian_load_py NpFloat64 1000 5 5 0 = Inr NaN"
  using gaussian_load_py_negative_spread [of NpFloat64]
    gaussian_load_py_negative_spread [of PyFloat]
    gaussian_load_py_np_zero_spread [of 1000 5 5]
  by simp

end
